theory Spec2Isabelle
  imports Complex_Main "HOL-Library.Product_Lexorder" "HOL-Library.List_Lexorder"
    "HOL-Library.Char_ord"
begin

section \<open>Python values\<close>

text \<open>
  The program is a Python script over pandas and difflib. A Python \<open>str\<close> is modelled as
  a \<^typ>\<open>string\<close> whose characters are the code points below 256 (so \<open>len\<close> counts
  characters, and the accented \<open>o\<close> of the header spelling is the single character
  \<open>0xF3\<close>). A Python \<open>float\<close> is modelled as a \<^typ>\<open>real\<close>: binary rounding error and
  the infinities are outside the model, NaN is a value of its own where the code can meet it.
  An exception is a value of \<open>py_error\<close> on the left of a sum.
\<close>

datatype py_error = ValueError | ZeroDivisionError | AttributeError | KeyError

section \<open>difflib.SequenceMatcher\<close>

text \<open>
  \<open>calculate_text_similarity\<close> calls \<open>difflib.SequenceMatcher(None, a, b).ratio()\<close>. The
  functions below follow CPython's \<open>difflib.py\<close> for \<open>isjunk = None\<close> and \<open>autojunk = True\<close>
  (the defaults the call uses).

  \<open>__chain_b\<close>: \<open>b2j\<close> maps an element to the ascending list of its positions in \<open>b\<close>; when
  \<open>len(b) >= 200\<close>, an element with more than \<open>len(b) // 100 + 1\<close> positions is "popular"
  and deleted from \<open>b2j\<close>. \<open>b2j.get(x, [])\<close> is \<open>chain_b b x\<close>. No element is junk.
\<close>

definition indices :: "'a list \<Rightarrow> 'a \<Rightarrow> nat list" where
  "indices b elt = filter (\<lambda>i. b ! i = elt) [0..<length b]"

definition bpopular :: "'a list \<Rightarrow> 'a \<Rightarrow> bool" where
  "bpopular b elt = (let n = length b in n \<ge> 200 \<and> length (indices b elt) > n div 100 + 1)"

definition chain_b :: "'a list \<Rightarrow> 'a \<Rightarrow> nat list" where
  "chain_b b elt = (if bpopular b elt then [] else indices b elt)"

definition isbjunk :: "'a \<Rightarrow> bool" where
  "isbjunk x = False"

type_synonym best = "nat \<times> nat \<times> nat"

text \<open>
  The inner loop of \<open>find_longest_match\<close>, over the positions \<open>j\<close> of \<open>a[i]\<close> in \<open>b\<close>:
  \<open>continue\<close> below \<open>blo\<close>, \<open>break\<close> from \<open>bhi\<close> on, else
  \<open>k = newj2len[j] = j2len.get(j-1, 0) + 1\<close> and the best block is replaced when \<open>k\<close> is
  strictly larger. \<open>j2lenget j2len j\<close> is \<open>j2len.get(j-1, 0)\<close>: \<open>j - 1\<close> is \<open>-1\<close> for
  \<open>j = 0\<close>, never a key, hence the test on \<open>j\<close>. \<open>i - k + 1\<close> is written \<open>i + 1 - k\<close>.
\<close>

definition j2lenget :: "(nat \<rightharpoonup> nat) \<Rightarrow> nat \<Rightarrow> nat" where
  "j2lenget j2len j = (if j = 0 then 0 else case j2len (j - 1) of None \<Rightarrow> 0 | Some v \<Rightarrow> v)"

fun inner_loop ::
  "nat \<Rightarrow> nat \<Rightarrow> nat \<Rightarrow> (nat \<rightharpoonup> nat) \<Rightarrow> nat list \<Rightarrow> (nat \<rightharpoonup> nat) \<times> best \<Rightarrow> (nat \<rightharpoonup> nat) \<times> best"
where
  "inner_loop blo bhi i j2len [] st = st"
| "inner_loop blo bhi i j2len (j # js) (newj2len, besti, bestj, bestsize) =
     (if j < blo then inner_loop blo bhi i j2len js (newj2len, besti, bestj, bestsize)
      else if j \<ge> bhi then (newj2len, besti, bestj, bestsize)
      else
        let k = j2lenget j2len j + 1
        in inner_loop blo bhi i j2len js
             (newj2len(j \<mapsto> k),
              if k > bestsize then (i + 1 - k, j + 1 - k, k) else (besti, bestj, bestsize)))"

text \<open>The outer loop \<open>for i in range(alo, ahi)\<close>; \<open>j2len = newj2len\<close> at the end of a row.\<close>

fun outer_loop ::
  "'a list \<Rightarrow> 'a list \<Rightarrow> nat \<Rightarrow> nat \<Rightarrow> nat list \<Rightarrow> (nat \<rightharpoonup> nat) \<times> best \<Rightarrow> (nat \<rightharpoonup> nat) \<times> best"
where
  "outer_loop a b blo bhi [] st = st"
| "outer_loop a b blo bhi (i # is) (j2len, bst) =
     outer_loop a b blo bhi is
       (inner_loop blo bhi i j2len (chain_b b (a ! i)) (Map.empty, bst))"

text \<open>
  The four \<open>while\<close> statements that extend the best block at its low and at its high end, first
  over elements that are not junk, then over junk (\<open>P\<close> is the test on \<open>b\<close>'s element).
\<close>

function extend_lo :: "('a \<Rightarrow> bool) \<Rightarrow> 'a list \<Rightarrow> 'a list \<Rightarrow> nat \<Rightarrow> nat \<Rightarrow> best \<Rightarrow> best" where
  "extend_lo P a b alo blo (besti, bestj, bestsize) =
     (if besti > alo \<and> bestj > blo \<and> P (b ! (bestj - 1)) \<and> a ! (besti - 1) = b ! (bestj - 1)
      then extend_lo P a b alo blo (besti - 1, bestj - 1, bestsize + 1)
      else (besti, bestj, bestsize))"
  by pat_completeness auto
termination
  by (relation "measure (\<lambda>(P, a, b, alo, blo, besti, bestj, bestsize). besti)") auto

declare extend_lo.simps [simp del]

function extend_hi :: "('a \<Rightarrow> bool) \<Rightarrow> 'a list \<Rightarrow> 'a list \<Rightarrow> nat \<Rightarrow> nat \<Rightarrow> best \<Rightarrow> best" where
  "extend_hi P a b ahi bhi (besti, bestj, bestsize) =
     (if besti + bestsize < ahi \<and> bestj + bestsize < bhi \<and> P (b ! (bestj + bestsize))
         \<and> a ! (besti + bestsize) = b ! (bestj + bestsize)
      then extend_hi P a b ahi bhi (besti, bestj, bestsize + 1)
      else (besti, bestj, bestsize))"
  by pat_completeness auto
termination
  by (relation "measure (\<lambda>(P, a, b, ahi, bhi, besti, bestj, bestsize). ahi - (besti + bestsize))") auto

declare extend_hi.simps [simp del]

definition find_longest_match :: "'a list \<Rightarrow> 'a list \<Rightarrow> nat \<Rightarrow> nat \<Rightarrow> nat \<Rightarrow> nat \<Rightarrow> best" where
  "find_longest_match a b alo ahi blo bhi =
     (let bst = snd (outer_loop a b blo bhi [alo..<ahi] (Map.empty, alo, blo, 0));
          bst = extend_lo (\<lambda>x. \<not> isbjunk x) a b alo blo bst;
          bst = extend_hi (\<lambda>x. \<not> isbjunk x) a b ahi bhi bst;
          bst = extend_lo isbjunk a b alo blo bst;
          bst = extend_hi isbjunk a b ahi bhi bst
      in bst)"

text \<open>
  The loop of \<open>get_matching_blocks\<close> over its work list. \<open>queue.pop()\<close> takes the last
  element and \<open>queue.append\<close> adds at the end, so the list is kept here with its end at
  the head: the block below the match is pushed first, the block above it second.
\<close>

function matching_loop ::
  "'a list \<Rightarrow> 'a list \<Rightarrow> (nat \<times> nat \<times> nat \<times> nat) list \<Rightarrow> best list \<Rightarrow> best list"
where
  "matching_loop a b [] matching_blocks = matching_blocks"
| "matching_loop a b ((alo, ahi, blo, bhi) # queue) matching_blocks =
     (case find_longest_match a b alo ahi blo bhi of
        (i, j, k) \<Rightarrow>
          if k \<noteq> 0
          then matching_loop a b
                 ((if i + k < ahi \<and> j + k < bhi then [(i + k, ahi, j + k, bhi)] else [])
                  @ (if alo < i \<and> blo < j then [(alo, i, blo, j)] else [])
                  @ queue)
                 (matching_blocks @ [(i, j, k)])
          else matching_loop a b queue matching_blocks)"
  by pat_completeness auto

text \<open>The loop that collapses adjacent blocks; \<open>(i1, j1, k1)\<close> starts as \<open>(0, 0, 0)\<close>.\<close>

fun collapse :: "best \<Rightarrow> best list \<Rightarrow> best list \<Rightarrow> best list" where
  "collapse (i1, j1, k1) [] non_adjacent =
     (if k1 \<noteq> 0 then non_adjacent @ [(i1, j1, k1)] else non_adjacent)"
| "collapse (i1, j1, k1) ((i2, j2, k2) # rest) non_adjacent =
     (if i1 + k1 = i2 \<and> j1 + k1 = j2
      then collapse (i1, j1, k1 + k2) rest non_adjacent
      else collapse (i2, j2, k2) rest
             (if k1 \<noteq> 0 then non_adjacent @ [(i1, j1, k1)] else non_adjacent))"

definition get_matching_blocks :: "'a list \<Rightarrow> 'a list \<Rightarrow> best list" where
  "get_matching_blocks a b =
     (let la = length a; lb = length b;
          matching_blocks = sort (matching_loop a b [(0, la, 0, lb)] []);
          non_adjacent = collapse (0, 0, 0) matching_blocks []
      in non_adjacent @ [(la, lb, 0)])"

definition calculate_ratio :: "nat \<Rightarrow> nat \<Rightarrow> real" where
  "calculate_ratio matches len = (if len \<noteq> 0 then 2 * real matches / real len else 1)"

definition matches :: "'a list \<Rightarrow> 'a list \<Rightarrow> nat" where
  "matches a b = sum_list (map (\<lambda>(i, j, k). k) (get_matching_blocks a b))"

definition ratio :: "'a list \<Rightarrow> 'a list \<Rightarrow> real" where
  "ratio a b = calculate_ratio (matches a b) (length a + length b)"

section \<open>Text similarity\<close>

text \<open>
  \<open>str.lower\<close> on the code points below 256: the letters \<open>A\<close> to \<open>Z\<close> and the accented
  capitals \<open>0xC0\<close> to \<open>0xDE\<close> (without the multiplication sign \<open>0xD7\<close>) move up by 32.
\<close>

definition lower_char :: "char \<Rightarrow> char" where
  "lower_char c =
     (let n = (of_char c :: nat)
      in if (65 \<le> n \<and> n \<le> 90) \<or> (192 \<le> n \<and> n \<le> 214) \<or> (216 \<le> n \<and> n \<le> 222)
         then char_of (n + 32) else c)"

definition lower :: "string \<Rightarrow> string" where
  "lower s = map lower_char s"

text \<open>\<open>calculate_text_similarity\<close>; \<open>not s\<close> holds of the empty string only.\<close>

definition calculate_text_similarity :: "string \<Rightarrow> string \<Rightarrow> real" where
  "calculate_text_similarity s1 s2 =
     (if s1 = [] \<or> s2 = [] then 0 else ratio (lower s1) (lower s2) * 100)"

section \<open>Cells and prices\<close>

text \<open>
  A cell of a sheet read by \<open>pandas.read_excel\<close>: empty (\<open>None\<close> or NaN), a boolean, an
  integer, a float or a string. Dates and other objects are not modelled.
\<close>

datatype cell = PyNone | PyNaN | PyBool bool | PyInt int | PyFloat real | PyStr string

definition is_digit :: "char \<Rightarrow> bool" where
  "is_digit c = (c \<in> set ''0123456789'')"

definition digits_val :: "string \<Rightarrow> nat" where
  "digits_val ds = foldl (\<lambda>acc c. 10 * acc + (of_char c - 48)) 0 ds"

text \<open>
  \<open>re.sub(r'[^0-9.-]', '', s)\<close>: every character that is not a digit, a point or a minus
  sign is removed.
\<close>

definition re_sub_non_numeric :: "string \<Rightarrow> string" where
  "re_sub_non_numeric s = filter (\<lambda>c. is_digit c \<or> c = CHR ''.'' \<or> c = CHR ''-'') s"

text \<open>
  \<open>float(cleaned)\<close> on what \<open>re.sub\<close> leaves. Python accepts an optional minus sign
  followed by digits with at most one point and at least one digit; the value is the decimal
  number read. Anything else raises \<open>ValueError\<close>: the empty string, a lone sign or point, a
  second point, a minus sign that is not in front. (Characters that \<open>re.sub\<close> removes never
  reach this function; it rejects them.)
\<close>

definition py_float :: "string \<Rightarrow> py_error + real" where
  "py_float s =
     (let neg = (s \<noteq> [] \<and> hd s = CHR ''-'');
          body = (if neg then tl s else s);
          ip = takeWhile is_digit body;
          rest = dropWhile is_digit body;
          fp = (if rest = [] then [] else tl rest);
          ok = (if rest = [] then ip \<noteq> []
                else hd rest = CHR ''.'' \<and> list_all is_digit fp \<and> (ip \<noteq> [] \<or> fp \<noteq> []));
          v = real (digits_val ip) + real (digits_val fp) / 10 ^ length fp
      in if ok then Inr (if neg then - v else v) else Inl ValueError)"

text \<open>
  \<open>clean_price\<close>. \<open>pd.isna(val) or val == ""\<close> gives \<open>0.0\<close>; an \<open>int\<close> or \<open>float\<close> (a
  \<open>bool\<close> is an \<open>int\<close>) gives \<open>float(val)\<close>; what is left is a non-empty string, cleaned and
  parsed, with \<open>ValueError\<close> caught. (Python's \<open>float\<close> of an integer beyond the float range
  raises \<open>OverflowError\<close>; no cell of a sheet holds one, and the reals have no such bound.)
\<close>

fun clean_price :: "cell \<Rightarrow> py_error + real" where
  "clean_price PyNone = Inr 0"
| "clean_price PyNaN = Inr 0"
| "clean_price (PyBool b) = Inr (if b then 1 else 0)"
| "clean_price (PyInt n) = Inr (of_int n)"
| "clean_price (PyFloat x) = Inr x"
| "clean_price (PyStr s) =
     (if s = [] then Inr 0
      else case py_float (re_sub_non_numeric s) of
             Inr v \<Rightarrow> Inr v
           | Inl ValueError \<Rightarrow> Inr 0
           | Inl e \<Rightarrow> Inl e)"

text \<open>
  \<open>.round(2)\<close> of a float column is \<open>rint(x * 100) / 100\<close>, with \<open>rint\<close> rounding a tie to the
  even integer.
\<close>

definition rint :: "real \<Rightarrow> int" where
  "rint x =
     (let f = \<lfloor>x\<rfloor>; d = x - of_int f
      in if d < 1 / 2 then f else if d > 1 / 2 then f + 1 else if even f then f else f + 1)"

definition round2 :: "real \<Rightarrow> real" where
  "round2 x = of_int (rint (x * 100)) / 100"

section \<open>The comparison of two canonical tables\<close>

text \<open>
  At the merge, \<open>df_a\<close> and \<open>df_b\<close> have the columns \<open>Clave\<close>, \<open>Descripcion\<close>, \<open>Precio\<close>; a
  table is the list of its rows.
\<close>

record part =
  Clave :: string
  Descripcion :: string
  Precio :: real

text \<open>
  A row of \<open>pd.merge(df_a, df_b, on='Clave', how='outer', indicator=True)\<close>: the indicator
  \<open>_merge\<close> is \<open>left_only\<close>, \<open>right_only\<close> or \<open>both\<close>, and the columns of an absent side,
  NaN in pandas, are absent here.
\<close>

datatype merged_row = Left_only part | Right_only part | Both part part

text \<open>
  The outer join, as pandas documents and computes it (\<open>how='outer'\<close>: the union of the keys
  of both frames, sorted): it goes through the keys of both tables in sorted order. For a
  key with rows on one side only it gives these rows in their order; for a key with rows on
  both sides it gives every pair of a left row and a right row, the left row varying slowest.
\<close>

definition merge_group :: "part list \<Rightarrow> part list \<Rightarrow> string \<Rightarrow> merged_row list" where
  "merge_group df_a df_b k =
     (let ls = filter (\<lambda>r. Clave r = k) df_a;
          rs = filter (\<lambda>r. Clave r = k) df_b
      in if rs = [] then map Left_only ls
         else if ls = [] then map Right_only rs
         else concat (map (\<lambda>l. map (Both l) rs) ls))"

definition merge_outer :: "part list \<Rightarrow> part list \<Rightarrow> merged_row list" where
  "merge_outer df_a df_b =
     concat (map (merge_group df_a df_b) (sort (remdups (map Clave df_a @ map Clave df_b))))"

fun both_rows :: "merged_row list \<Rightarrow> (part \<times> part) list" where
  "both_rows [] = []"
| "both_rows (Both l r # ms) = (l, r) # both_rows ms"
| "both_rows (_ # ms) = both_rows ms"

fun left_only_rows :: "merged_row list \<Rightarrow> part list" where
  "left_only_rows [] = []"
| "left_only_rows (Left_only l # ms) = l # left_only_rows ms"
| "left_only_rows (_ # ms) = left_only_rows ms"

fun right_only_rows :: "merged_row list \<Rightarrow> part list" where
  "right_only_rows [] = []"
| "right_only_rows (Right_only r # ms) = r # right_only_rows ms"
| "right_only_rows (_ # ms) = right_only_rows ms"

text \<open>Python's \<open>/\<close> on floats raises on a zero divisor.\<close>

definition py_truediv :: "real \<Rightarrow> real \<Rightarrow> py_error + real" where
  "py_truediv x y = (if y = 0 then Inl ZeroDivisionError else Inr (x / y))"

text \<open>
  The lambda of \<open>Diferencia %\<close>:
  \<open>(x['Diferencia $'] / x['Precio_A'] * 100) if x['Precio_A'] != 0 else 0\<close>.
\<close>

definition diferencia_pct :: "real \<Rightarrow> real \<Rightarrow> py_error + real" where
  "diferencia_pct dif precio_a =
     (if precio_a \<noteq> 0
      then case py_truediv dif precio_a of Inl e \<Rightarrow> Inl e | Inr q \<Rightarrow> Inr (q * 100)
      else Inr 0)"

record match_record =
  Clave_AB :: string
  Descripcion_A :: string
  Descripcion_B :: string
  Precio_A :: real
  Precio_B :: real
  Diferencia_abs :: real
  Diferencia_pct :: real
  Similitud_Texto :: real

definition common_row :: "part \<times> part \<Rightarrow> py_error + match_record" where
  "common_row lr =
     (case lr of (l, r) \<Rightarrow>
        let dif = round2 (Precio r - Precio l)
        in case diferencia_pct dif (Precio l) of
             Inl e \<Rightarrow> Inl e
           | Inr pct \<Rightarrow>
               Inr \<lparr>Clave_AB = Clave l,
                    Descripcion_A = Descripcion l, Descripcion_B = Descripcion r,
                    Precio_A = Precio l, Precio_B = Precio r,
                    Diferencia_abs = dif, Diferencia_pct = pct,
                    Similitud_Texto = calculate_text_similarity (Descripcion l) (Descripcion r)\<rparr>)"

text \<open>A row-wise \<open>apply\<close> stops at the first row that raises.\<close>

fun apply_rows :: "('a \<Rightarrow> py_error + 'b) \<Rightarrow> 'a list \<Rightarrow> py_error + 'b list" where
  "apply_rows f [] = Inr []"
| "apply_rows f (x # xs) =
     (case f x of
        Inl e \<Rightarrow> Inl e
      | Inr y \<Rightarrow> (case apply_rows f xs of Inl e \<Rightarrow> Inl e | Inr ys \<Rightarrow> Inr (y # ys)))"

record results =
  total_a :: nat
  total_b :: nat
  common_count :: nat
  only_a_count :: nat
  only_b_count :: nat
  common_df :: "match_record list"
  only_a_df :: "part list"
  only_b_df :: "part list"

text \<open>The analysis of \<open>main\<close>, from the merge to the \<open>results\<close> dictionary.\<close>

definition analysis :: "part list \<Rightarrow> part list \<Rightarrow> py_error + results" where
  "analysis df_a df_b =
     (let merged = merge_outer df_a df_b;
          only_a = left_only_rows merged;
          only_b = right_only_rows merged
      in case apply_rows common_row (both_rows merged) of
           Inl e \<Rightarrow> Inl e
         | Inr common \<Rightarrow>
             Inr \<lparr>total_a = length df_a, total_b = length df_b,
                  common_count = length common,
                  only_a_count = length only_a, only_b_count = length only_b,
                  common_df = common, only_a_df = only_a, only_b_df = only_b\<rparr>)"

section \<open>Column normalisation\<close>

text \<open>
  A \<open>DataFrame\<close>: the number of rows and the columns in order, each a label with its cells.
  Two columns may carry the same label. The headers of a sheet are strings.
\<close>

record dataframe =
  nrows :: nat
  cols :: "(string \<times> cell list) list"

definition columns :: "dataframe \<Rightarrow> string list" where
  "columns df = map fst (cols df)"

text \<open>\<open>str.strip()\<close>: the characters below 256 for which \<open>str.isspace\<close> holds.\<close>

definition is_space :: "char \<Rightarrow> bool" where
  "is_space c =
     (let n = (of_char c :: nat)
      in (9 \<le> n \<and> n \<le> 13) \<or> (28 \<le> n \<and> n \<le> 32) \<or> n = 133 \<or> n = 160)"

definition py_strip :: "string \<Rightarrow> string" where
  "py_strip s = rev (dropWhile is_space (rev (dropWhile is_space s)))"

text \<open>
  \<open>str(x)\<close> of a cell, which \<open>astype(str)\<close> applies to every cell of a column. The text of a
  float (Python's shortest \<open>repr\<close>) is not modelled: it is the parameter \<open>float_str\<close>.
\<close>

fun digits_of :: "nat \<Rightarrow> string" where
  "digits_of n =
     (if n < 10 then [char_of (48 + n)] else digits_of (n div 10) @ [char_of (48 + n mod 10)])"

declare digits_of.simps [simp del]

fun py_str :: "(real \<Rightarrow> string) \<Rightarrow> cell \<Rightarrow> string" where
  "py_str float_str PyNone = ''None''"
| "py_str float_str PyNaN = ''nan''"
| "py_str float_str (PyBool b) = (if b then ''True'' else ''False'')"
| "py_str float_str (PyInt n) = (if n < 0 then CHR ''-'' # digits_of (nat (- n)) else digits_of (nat n))"
| "py_str float_str (PyFloat x) = float_str x"
| "py_str float_str (PyStr s) = s"

definition isna :: "cell \<Rightarrow> bool" where
  "isna c = (c = PyNone \<or> c = PyNaN)"

definition fillna :: "cell \<Rightarrow> cell \<Rightarrow> cell" where
  "fillna v c = (if isna c then v else c)"

text \<open>The accepted spellings, in the order of the source.\<close>

definition clave_cols :: "string list" where
  "clave_cols = [''Clave'', ''clave'', ''CLAVE'', ''Codigo'', ''codigo'', ''SKU'', ''sku'']"

definition desc_cols :: "string list" where
  "desc_cols = [''Descripci'' @ [CHR 0xF3] @ ''n'', ''Descripcion'', ''descripcion'', ''Nombre'', ''nombre'']"

definition price_cols :: "string list" where
  "price_cols = [''Precio'', ''precio'', ''PRECIO'', ''Costo'', ''costo'']"

text \<open>
  One of the three statements \<open>for c in ...: if c in df.columns: col_map[c] = name; break\<close>:
  the entry it adds to \<open>col_map\<close>, if any.
\<close>

definition find_col :: "string list \<Rightarrow> string \<Rightarrow> string list \<Rightarrow> (string \<times> string) list" where
  "find_col candidates name cs =
     (case find (\<lambda>c. c \<in> set cs) candidates of None \<Rightarrow> [] | Some c \<Rightarrow> [(c, name)])"

text \<open>\<open>df.rename(columns=col_map)\<close>: a new frame; every label that is a key is replaced.\<close>

definition rename :: "(string \<times> string) list \<Rightarrow> dataframe \<Rightarrow> dataframe" where
  "rename col_map df =
     df\<lparr>cols := map (\<lambda>(l, d). (case map_of col_map l of None \<Rightarrow> l | Some l' \<Rightarrow> l', d)) (cols df)\<rparr>"

text \<open>\<open>df[label] = value\<close> for a label that is not a column yet: a new last column.\<close>

definition add_column :: "string \<Rightarrow> cell \<Rightarrow> dataframe \<Rightarrow> dataframe" where
  "add_column l v df = df\<lparr>cols := cols df @ [(l, replicate (nrows df) v)]\<rparr>"

definition locs :: "string \<Rightarrow> dataframe \<Rightarrow> nat list" where
  "locs l df = filter (\<lambda>i. fst (cols df ! i) = l) [0..<length (cols df)]"

definition map_col :: "(cell \<Rightarrow> cell) \<Rightarrow> nat \<Rightarrow> dataframe \<Rightarrow> dataframe" where
  "map_col f i df = df\<lparr>cols := (cols df)[i := (fst (cols df ! i), map f (snd (cols df ! i)))]\<rparr>"

text \<open>
  \<open>df['Clave'] = df['Clave'].astype(str).str.strip()\<close>. With one column of that label
  \<open>df['Clave']\<close> is a \<open>Series\<close>; with several it is a \<open>DataFrame\<close>, which has no \<open>.str\<close>.
\<close>

definition clean_clave :: "(real \<Rightarrow> string) \<Rightarrow> dataframe \<Rightarrow> py_error + dataframe" where
  "clean_clave float_str df =
     (case locs ''Clave'' df of
        [] \<Rightarrow> Inl KeyError
      | [i] \<Rightarrow> Inr (map_col (\<lambda>c. PyStr (py_strip (py_str float_str c))) i df)
      | _ \<Rightarrow> Inl AttributeError)"

text \<open>
  \<open>df['Descripcion'] = df['Descripcion'].astype(str).fillna("")\<close>, which pandas accepts for
  one column of that label and for several (each is converted).
\<close>

definition clean_descripcion :: "(real \<Rightarrow> string) \<Rightarrow> dataframe \<Rightarrow> py_error + dataframe" where
  "clean_descripcion float_str df =
     (case locs ''Descripcion'' df of
        [] \<Rightarrow> Inl KeyError
      | is \<Rightarrow> Inr (foldr (map_col (\<lambda>c. fillna (PyStr []) (PyStr (py_str float_str c)))) is df))"

text \<open>
  \<open>df['Precio'] = df['Precio'].apply(clean_price).round(2)\<close>. With several columns of that
  label \<open>apply\<close> is \<open>DataFrame.apply\<close>, which passes a whole column to \<open>clean_price\<close>: its
  first test takes the truth value of a \<open>Series\<close>, a \<open>ValueError\<close>. A frame without rows is
  returned by \<open>DataFrame.apply\<close> as it is.
\<close>

definition clean_precio :: "dataframe \<Rightarrow> py_error + dataframe" where
  "clean_precio df =
     (case locs ''Precio'' df of
        [] \<Rightarrow> Inl KeyError
      | [i] \<Rightarrow>
          (case apply_rows clean_price (snd (cols df ! i)) of
             Inl e \<Rightarrow> Inl e
           | Inr ps \<Rightarrow> Inr (df\<lparr>cols := (cols df)[i := (''Precio'', map (\<lambda>p. PyFloat (round2 p)) ps)]\<rparr>))
      | _ \<Rightarrow> if nrows df = 0 then Inr df else Inl ValueError)"

text \<open>\<open>df[[l1, l2, l3]]\<close>: for each label in turn, every column that carries it.\<close>

definition select :: "string list \<Rightarrow> dataframe \<Rightarrow> py_error + dataframe" where
  "select ls df =
     (if \<exists>l \<in> set ls. l \<notin> set (columns df) then Inl KeyError
      else Inr (df\<lparr>cols := concat (map (\<lambda>l. filter (\<lambda>c. fst c = l) (cols df)) ls)\<rparr>))"

text \<open>
  \<open>normalize_columns\<close>. The first component of the result is the caller's frame after the
  call: the assignment to \<open>df.columns\<close> changes the frame that was passed, and \<open>rename\<close>
  makes the new frame that the later statements change. The second component is what the
  call returns, or the exception it raises.
\<close>

definition normalize_columns ::
  "(real \<Rightarrow> string) \<Rightarrow> dataframe \<Rightarrow> dataframe \<times> (py_error + dataframe \<times> bool)"
where
  "normalize_columns float_str df0 =
     (let df = df0\<lparr>cols := map (\<lambda>(l, d). (py_strip l, d)) (cols df0)\<rparr>;
          col_map = find_col clave_cols ''Clave'' (columns df)
                    @ find_col desc_cols ''Descripcion'' (columns df)
                    @ find_col price_cols ''Precio'' (columns df)
      in if ''Clave'' \<notin> snd ` set col_map then (df, Inr (df, False))
         else
           let df1 = rename col_map df;
               df2 = (if ''Descripcion'' \<notin> set (columns df1)
                      then add_column ''Descripcion'' (PyStr []) df1 else df1);
               df3 = (if ''Precio'' \<notin> set (columns df2)
                      then add_column ''Precio'' (PyFloat 0) df2 else df2)
           in (df,
               case clean_clave float_str df3 of
                 Inl e \<Rightarrow> Inl e
               | Inr df4 \<Rightarrow>
                   (case clean_descripcion float_str df4 of
                      Inl e \<Rightarrow> Inl e
                    | Inr df5 \<Rightarrow>
                        (case clean_precio df5 of
                           Inl e \<Rightarrow> Inl e
                         | Inr df6 \<Rightarrow>
                             (case select [''Clave'', ''Descripcion'', ''Precio''] df6 of
                                Inl e \<Rightarrow> Inl e
                              | Inr out \<Rightarrow> Inr (out, True))))))"

section \<open>Example tables\<close>

text \<open>
  The two tables of the specification's scenario, two tables where a key is repeated, and
  two tables with a part of price 0.
\<close>

definition scenario_a :: "part list" where
  "scenario_a = [\<lparr>Clave = ''X1'', Descripcion = ''Brake Pad'', Precio = 100\<rparr>,
                 \<lparr>Clave = ''X2'', Descripcion = ''Filter'', Precio = 50\<rparr>]"

definition scenario_b :: "part list" where
  "scenario_b = [\<lparr>Clave = ''X1'', Descripcion = ''Brake Pad Set'', Precio = 110\<rparr>,
                 \<lparr>Clave = ''X3'', Descripcion = ''Oil'', Precio = 20\<rparr>]"

definition duplicate_a :: "part list" where
  "duplicate_a = [\<lparr>Clave = ''X'', Descripcion = ''a'', Precio = 1\<rparr>]"

definition duplicate_b :: "part list" where
  "duplicate_b = [\<lparr>Clave = ''X'', Descripcion = ''b'', Precio = 2\<rparr>,
                  \<lparr>Clave = ''X'', Descripcion = ''c'', Precio = 3\<rparr>]"



text \<open>
  Three sheets: one with both spellings of the description header, one without a key
  column, one with a repeated and a blank key.
\<close>

definition both_spellings :: dataframe where
  "both_spellings =
     \<lparr>nrows = 1,
      cols = [(''Clave'', [PyStr ''A1'']),
              (''Descripci'' @ [CHR 0xF3] @ ''n'', [PyStr ''Filtro'']),
              (''Descripcion'', [PyStr ''Filter''])]\<rparr>"

definition no_key :: dataframe where
  "no_key = \<lparr>nrows = 1, cols = [(''Part'', [PyStr ''A1'']), ('' Precio'', [PyStr ''$5''])]\<rparr>"

definition duplicate_keys :: dataframe where
  "duplicate_keys =
     \<lparr>nrows = 3,
      cols = [(''SKU'', [PyStr ''A'', PyStr ''A'', PyStr ''  '']),
              (''Costo'', [PyInt 1, PyInt 2, PyInt 3])]\<rparr>"

section \<open>Notions used in the proofs\<close>

text \<open>
  A block within the window of a call of \<open>find_longest_match\<close>, and the bound on the
  lengths that \<open>j2len\<close> holds for a row.
\<close>

definition valid_best :: "nat \<Rightarrow> nat \<Rightarrow> nat \<Rightarrow> nat \<Rightarrow> best \<Rightarrow> bool" where
  "valid_best alo ahi blo bhi bst =
     (case bst of (i, j, k) \<Rightarrow>
        alo \<le> i \<and> blo \<le> j \<and> ((k = 0 \<and> i = alo \<and> j = blo) \<or> (i + k \<le> ahi \<and> j + k \<le> bhi)))"

definition row_inv :: "nat \<Rightarrow> nat \<Rightarrow> (nat \<rightharpoonup> nat) \<Rightarrow> bool" where
  "row_inv blo n m = (\<forall>j v. m j = Some v \<longrightarrow> v \<le> n \<and> v + blo \<le> j + 1)"

text \<open>
  For a sequence matched against itself: the length of the run of equal, not popular
  elements that ends at the positions \<open>i\<close> and \<open>j\<close>. This is what \<open>j2len\<close> holds.
\<close>

fun run_len :: "'a list \<Rightarrow> nat \<Rightarrow> nat \<Rightarrow> nat" where
  "run_len x 0 j = (if x ! 0 = x ! j \<and> \<not> bpopular x (x ! j) then 1 else 0)"
| "run_len x (Suc i) 0 = (if x ! Suc i = x ! 0 \<and> \<not> bpopular x (x ! 0) then 1 else 0)"
| "run_len x (Suc i) (Suc j) =
     (if x ! Suc i = x ! Suc j \<and> \<not> bpopular x (x ! Suc j) then run_len x i j + 1 else 0)"

definition prev_run :: "'a list \<Rightarrow> nat \<Rightarrow> nat \<Rightarrow> nat" where
  "prev_run x i j = (if i = 0 \<or> j = 0 then 0 else run_len x (i - 1) (j - 1))"

text \<open>
  The invariants of the inner and the outer iteration on a sequence matched against itself: the best block
  lies on the diagonal and is at least as long as every run seen so far.
\<close>

definition diag_inv :: "'a list \<Rightarrow> nat \<Rightarrow> nat \<Rightarrow> best \<Rightarrow> bool" where
  "diag_inv x i t bst =
     (case bst of (bi, bj, bs) \<Rightarrow>
        bi = bj \<and> (\<forall>i' j'. j' < length x \<and> (i' < i \<or> (i' = i \<and> j' < t)) \<longrightarrow> run_len x i' j' \<le> bs))"

definition row_ok :: "'a list \<Rightarrow> nat \<Rightarrow> (nat \<rightharpoonup> nat) \<Rightarrow> bool" where
  "row_ok x i j2len = (\<forall>j < length x. j2lenget j2len j = prev_run x i j)"

definition new_ok :: "'a list \<Rightarrow> nat \<Rightarrow> nat \<Rightarrow> (nat \<rightharpoonup> nat) \<Rightarrow> bool" where
  "new_ok x i t new = (\<forall>j. new j = (if j < t \<and> x ! j = x ! i then Some (run_len x i j) else None))"

text \<open>
  The number of matched characters of a list of blocks.
\<close>

abbreviation sizes :: "best list \<Rightarrow> nat" where
  "sizes bs \<equiv> sum_list (map (\<lambda>(i, j, k). k) bs)"

text \<open>
  The rows of a table with a given key, the keys of the join, and the match record
  computed without the error cases.
\<close>

definition rows_with :: "string \<Rightarrow> part list \<Rightarrow> part list" where
  "rows_with k df = filter (\<lambda>r. Clave r = k) df"

definition join_keys :: "part list \<Rightarrow> part list \<Rightarrow> string list" where
  "join_keys df_a df_b = sort (remdups (map Clave df_a @ map Clave df_b))"

definition match_of :: "part \<times> part \<Rightarrow> match_record" where
  "match_of lr =
     (case lr of (l, r) \<Rightarrow>
        \<lparr>Clave_AB = Clave l,
         Descripcion_A = Descripcion l, Descripcion_B = Descripcion r,
         Precio_A = Precio l, Precio_B = Precio r,
         Diferencia_abs = round2 (Precio r - Precio l),
         Diferencia_pct = (if Precio l \<noteq> 0 then round2 (Precio r - Precio l) / Precio l * 100 else 0),
         Similitud_Texto = calculate_text_similarity (Descripcion l) (Descripcion r)\<rparr>)"

text \<open>
  The stages of \<open>normalize_columns\<close>, named: the frame with stripped headers, the
  dictionary \<open>col_map\<close>, the frame with its missing columns filled, and the cleaning of the
  three columns.
\<close>

definition strip_headers :: "dataframe \<Rightarrow> dataframe" where
  "strip_headers df = df\<lparr>cols := map (\<lambda>(l, d). (py_strip l, d)) (cols df)\<rparr>"

definition col_map_of :: "string list \<Rightarrow> (string \<times> string) list" where
  "col_map_of cs = find_col clave_cols ''Clave'' cs @ find_col desc_cols ''Descripcion'' cs
                    @ find_col price_cols ''Precio'' cs"

definition fill_defaults :: "dataframe \<Rightarrow> dataframe" where
  "fill_defaults df1 =
     (let df2 = (if ''Descripcion'' \<notin> set (columns df1)
                 then add_column ''Descripcion'' (PyStr []) df1 else df1)
      in if ''Precio'' \<notin> set (columns df2) then add_column ''Precio'' (PyFloat 0) df2 else df2)"

definition clean_types :: "(real \<Rightarrow> string) \<Rightarrow> dataframe \<Rightarrow> py_error + dataframe \<times> bool" where
  "clean_types float_str df3 =
     (case clean_clave float_str df3 of
        Inl e \<Rightarrow> Inl e
      | Inr df4 \<Rightarrow>
          (case clean_descripcion float_str df4 of
             Inl e \<Rightarrow> Inl e
           | Inr df5 \<Rightarrow>
               (case clean_precio df5 of
                  Inl e \<Rightarrow> Inl e
                | Inr df6 \<Rightarrow>
                    (case select [''Clave'', ''Descripcion'', ''Precio''] df6 of
                       Inl e \<Rightarrow> Inl e
                     | Inr out \<Rightarrow> Inr (out, True)))))"

text \<open>
  A frame is well formed when every column has \<open>nrows\<close> cells. Two frames have the same
  shape when they agree on the number of rows, the labels and the lengths of the columns.
\<close>

definition wf_frame :: "dataframe \<Rightarrow> bool" where
  "wf_frame df = (\<forall>c \<in> set (cols df). length (snd c) = nrows df)"

definition same_shape :: "dataframe \<Rightarrow> dataframe \<Rightarrow> bool" where
  "same_shape df df' =
     (nrows df' = nrows df \<and> map fst (cols df') = map fst (cols df)
      \<and> map (length \<circ> snd) (cols df') = map (length \<circ> snd) (cols df))"

definition kept :: "string \<Rightarrow> dataframe \<Rightarrow> dataframe \<Rightarrow> bool" where
  "kept l df df' = (\<forall>j < length (cols df). fst (cols df ! j) = l \<longrightarrow> cols df' ! j = cols df ! j)"

text \<open>
  A label is unique in a frame when at most one column carries it.
\<close>

definition uniq_label :: "string \<Rightarrow> dataframe \<Rightarrow> bool" where
  "uniq_label l df =
     (\<forall>i j. i < length (cols df) \<and> j < length (cols df)
            \<and> fst (cols df ! i) = l \<and> fst (cols df ! j) = l \<longrightarrow> i = j)"

text \<open>
  The accepted spellings of a canonical name.
\<close>

definition candidates_of :: "string \<Rightarrow> string list" where
  "candidates_of name =
     (if name = ''Clave'' then clave_cols else if name = ''Descripcion'' then desc_cols else price_cols)"

section \<open>Bounds of the longest match\<close>

lemma j2lenget_bound:
  assumes "row_inv blo n j2len" "blo \<le> j"
  shows "j2lenget j2len j \<le> n \<and> j2lenget j2len j + blo \<le> j"
proof (cases "j = 0")
  case True
  then show ?thesis using assms by (simp add: j2lenget_def)
next
  case False
  show ?thesis
  proof (cases "j2len (j - 1)")
    case None
    then show ?thesis using assms False by (simp add: j2lenget_def)
  next
    case (Some v)
    then have "v \<le> n \<and> v + blo \<le> (j - 1) + 1" using assms(1) unfolding row_inv_def by blast
    then show ?thesis using Some False by (simp add: j2lenget_def)
  qed
qed

lemma inner_loop_inv:
  assumes "row_inv blo (i - alo) j2len" "alo \<le> i" "i < ahi"
    and "row_inv blo (i + 1 - alo) (fst st)" "valid_best alo ahi blo bhi (snd st)"
  shows "row_inv blo (i + 1 - alo) (fst (inner_loop blo bhi i j2len js st))
       \<and> valid_best alo ahi blo bhi (snd (inner_loop blo bhi i j2len js st))"
  using assms
proof (induction blo bhi i j2len js st rule: inner_loop.induct)
  case (1 blo bhi i j2len st)
  then show ?case by simp
next
  case (2 blo bhi i j2len j js newj2len besti bestj bestsize)
  show ?case
  proof (cases "j < blo")
    case True
    with 2 show ?thesis by simp
  next
    case nlo: False
    show ?thesis
    proof (cases "j \<ge> bhi")
      case True
      with nlo 2 show ?thesis by simp
    next
      case nhi: False
      define k where "k = j2lenget j2len j + 1"
      have kb: "k \<le> i + 1 - alo" "k + blo \<le> j + 1"
        using j2lenget_bound[OF "2.prems"(1), of j] nlo "2.prems"(2) unfolding k_def by auto
      have new: "row_inv blo (i + 1 - alo) (newj2len(j \<mapsto> k))"
        using "2.prems"(4) kb unfolding row_inv_def by auto
      have vb: "valid_best alo ahi blo bhi (if k > bestsize then (i + 1 - k, j + 1 - k, k) else (besti, bestj, bestsize))"
        using kb nhi "2.prems"(2,3,5) unfolding valid_best_def by auto
      let ?st' = "(newj2len(j \<mapsto> k), if k > bestsize then (i + 1 - k, j + 1 - k, k) else (besti, bestj, bestsize))"
      have eq: "inner_loop blo bhi i j2len (j # js) (newj2len, besti, bestj, bestsize)
                = inner_loop blo bhi i j2len js ?st'"
        using nlo nhi by (simp add: k_def Let_def)
      have n1: "row_inv blo (i + 1 - alo) (fst ?st')" using new by simp
      have n2: "valid_best alo ahi blo bhi (snd ?st')" using vb by simp
      show ?thesis
        unfolding eq by (rule "2.IH"(2)[OF nlo nhi k_def "2.prems"(1,2,3) n1 n2])
    qed
  qed
qed

lemma outer_loop_inv:
  assumes "row_inv blo (n - alo) (fst st)" "valid_best alo ahi blo bhi (snd st)" "alo \<le> n"
  shows "valid_best alo ahi blo bhi (snd (outer_loop a b blo bhi [n..<ahi] st))"
  using assms
proof (induction "ahi - n" arbitrary: n st)
  case 0
  then show ?case by simp
next
  case (Suc d)
  then have lt: "n < ahi" by simp
  obtain j2len bst where st: "st = (j2len, bst)" by (cases st)
  let ?st' = "inner_loop blo bhi n j2len (chain_b b (a ! n)) (Map.empty, bst)"
  have e: "row_inv blo (n + 1 - alo) Map.empty" by (simp add: row_inv_def)
  have inv: "row_inv blo (n + 1 - alo) (fst ?st') \<and> valid_best alo ahi blo bhi (snd ?st')"
    using inner_loop_inv[of blo n alo j2len ahi "(Map.empty, bst)" bhi] Suc.prems st lt e by simp
  have "valid_best alo ahi blo bhi (snd (outer_loop a b blo bhi [Suc n..<ahi] ?st'))"
    using Suc.hyps(1)[of "Suc n" ?st'] Suc.hyps(2) inv Suc.prems(3) by simp
  then show ?case using lt st by (simp add: upt_rec[of n])
qed

lemma extend_lo_inv:
  "valid_best alo ahi blo bhi bst \<Longrightarrow> valid_best alo ahi blo bhi (extend_lo P a b alo blo bst)"
proof (induction P a b alo blo bst rule: extend_lo.induct)
  case (1 P a b alo blo besti bestj bestsize)
  show ?case
  proof (cases "besti > alo \<and> bestj > blo \<and> P (b ! (bestj - 1)) \<and> a ! (besti - 1) = b ! (bestj - 1)")
    case True
    have "valid_best alo ahi blo bhi (besti - 1, bestj - 1, bestsize + 1)"
      using "1.prems" True unfolding valid_best_def by auto
    from "1.IH"[OF True this] True show ?thesis by (subst extend_lo.simps) simp
  next
    case False
    then show ?thesis using "1.prems" by (subst extend_lo.simps) auto
  qed
qed

lemma extend_hi_inv:
  "valid_best alo ahi blo bhi bst \<Longrightarrow> valid_best alo ahi blo bhi (extend_hi P a b ahi bhi bst)"
proof (induction P a b ahi bhi bst rule: extend_hi.induct)
  case (1 P a b ahi bhi besti bestj bestsize)
  show ?case
  proof (cases "besti + bestsize < ahi \<and> bestj + bestsize < bhi \<and> P (b ! (bestj + bestsize))
         \<and> a ! (besti + bestsize) = b ! (bestj + bestsize)")
    case True
    have "valid_best alo ahi blo bhi (besti, bestj, bestsize + 1)"
      using "1.prems" True unfolding valid_best_def by auto
    from "1.IH"[OF True this] True show ?thesis by (subst extend_hi.simps) simp
  next
    case False
    then show ?thesis using "1.prems" by (subst extend_hi.simps) auto
  qed
qed

lemma find_longest_match_valid:
  "valid_best alo ahi blo bhi (find_longest_match a b alo ahi blo bhi)"
proof -
  have "valid_best alo ahi blo bhi (snd (outer_loop a b blo bhi [alo..<ahi] (Map.empty, alo, blo, 0)))"
    by (rule outer_loop_inv[where n = alo]) (simp_all add: row_inv_def valid_best_def)
  then show ?thesis
    unfolding find_longest_match_def Let_def
    by (intro extend_hi_inv extend_lo_inv)
qed

lemma find_longest_match_bounds:
  assumes "find_longest_match a b alo ahi blo bhi = (i, j, k)" "k \<noteq> 0"
  shows "alo \<le> i \<and> i + k \<le> ahi \<and> blo \<le> j \<and> j + k \<le> bhi"
  using find_longest_match_valid[of alo ahi blo bhi a b] assms by (simp add: valid_best_def)

termination matching_loop
proof (relation "measure (\<lambda>(a, b, queue, mb). sum_list (map (\<lambda>(alo, ahi, blo, bhi). 2 * (ahi - alo) + 1) queue))",
    goal_cases)
  case 1
  show ?case by simp
next
  case (2 a b alo ahi blo bhi queue mb i y j k)
  have "find_longest_match a b alo ahi blo bhi = (i, j, k)" using 2 by simp
  from find_longest_match_bounds[OF this] 2 show ?case by auto
next
  case 3
  then show ?case by simp
qed

section \<open>The longest match of a string with itself\<close>

lemma run_len_prev:
  "run_len x i j = (if x ! i = x ! j \<and> \<not> bpopular x (x ! j) then prev_run x i j + 1 else 0)"
  by (cases i; cases j) (simp_all add: prev_run_def)

lemma run_len_0: "run_len x j 0 = (if x ! j = x ! 0 \<and> \<not> bpopular x (x ! 0) then 1 else 0)"
  by (cases j) auto

lemma run_len_sym: "run_len x i j = run_len x j i"
proof (induction x i j rule: run_len.induct)
  case (1 x j)
  then show ?case by (auto simp: run_len_0)
next
  case (2 x i)
  then show ?case by auto
next
  case (3 x i j)
  then show ?case by auto
qed

lemma run_len_diag: "run_len x i j \<le> run_len x i i"
proof (induction x i j rule: run_len.induct)
  case (1 x j) then show ?case by simp
next
  case (2 x i) then show ?case by simp
next
  case (3 x i j)
  then show ?case by simp
qed

lemma inner_loop_diag:
  assumes "i < length x" "\<not> bpopular x (x ! i)" "t \<le> length x"
    and "row_ok x i j2len" "new_ok x i t new" "diag_inv x i t bst"
  shows "new_ok x i (length x) (fst (inner_loop 0 (length x) i j2len (filter (\<lambda>j. x ! j = x ! i) [t..<length x]) (new, bst)))
       \<and> diag_inv x i (length x) (snd (inner_loop 0 (length x) i j2len (filter (\<lambda>j. x ! j = x ! i) [t..<length x]) (new, bst)))"
  using assms(3,5,6)
proof (induction "length x - t" arbitrary: t new bst)
  case 0
  then show ?case by simp
next
  case (Suc d)
  then have lt: "t < length x" by simp
  have upt: "[t..<length x] = t # [Suc t..<length x]" using lt by (simp add: upt_rec)
  obtain bi bj bs where bst: "bst = (bi, bj, bs)" by (cases bst)
  show ?case
  proof (cases "x ! t = x ! i")
    case False
    have n: "new_ok x i (Suc t) new"
      using Suc.prems(2) False unfolding new_ok_def by (auto simp: less_Suc_eq)
    have "run_len x i t = 0" using False by (simp add: run_len_prev)
    then have d: "diag_inv x i (Suc t) bst"
      using Suc.prems(3) unfolding diag_inv_def bst by (auto simp: less_Suc_eq)
    from Suc.hyps(1)[of "Suc t", OF _ _ n d] Suc.hyps(2) lt False upt show ?thesis by simp
  next
    case True
    define k where "k = j2lenget j2len t + 1"
    have k: "k = run_len x i t"
      using assms(4) lt True assms(2) unfolding row_ok_def k_def by (simp add: run_len_prev[of x i t])
    let ?bst' = "if k > bs then (i + 1 - k, t + 1 - k, k) else (bi, bj, bs)"
    have step: "inner_loop 0 (length x) i j2len (filter (\<lambda>j. x ! j = x ! i) [t..<length x]) (new, bst)
        = inner_loop 0 (length x) i j2len (filter (\<lambda>j. x ! j = x ! i) [Suc t..<length x]) (new(t \<mapsto> k), ?bst')"
      using lt True upt bst by (simp add: k_def Let_def)
    have n: "new_ok x i (Suc t) (new(t \<mapsto> k))"
      using Suc.prems(2) True k unfolding new_ok_def by (auto simp: less_Suc_eq)
    have cells: "\<forall>i' j'. j' < length x \<and> (i' < i \<or> (i' = i \<and> j' < t)) \<longrightarrow> run_len x i' j' \<le> bs" and bb: "bi = bj"
      using Suc.prems(3) unfolding diag_inv_def bst by auto
    have d: "diag_inv x i (Suc t) ?bst'"
    proof (cases "k > bs")
      case False
      then show ?thesis using cells bb k unfolding diag_inv_def by (auto simp: less_Suc_eq)
    next
      case gt: True
      have "i = t"
      proof (rule ccontr)
        assume ne: "i \<noteq> t"
        show False
        proof (cases "t < i")
          case True
          then have "run_len x t i \<le> bs" using cells assms(1) by blast
          then show False using gt k run_len_sym[of x t i] by simp
        next
          case False
          then have "i < t" using ne by simp
          then have "run_len x i i \<le> bs" using cells assms(1) by blast
          then show False using gt k run_len_diag[of x i t] by simp
        qed
      qed
      then show ?thesis using gt cells k unfolding diag_inv_def
        by (auto simp: less_Suc_eq intro: less_imp_le le_less_trans)
    qed
    from Suc.hyps(1)[of "Suc t", OF _ _ n d] Suc.hyps(2) lt show ?thesis unfolding step by simp
  qed
qed

lemma run_len_popular: "bpopular x (x ! i) \<Longrightarrow> run_len x i j = 0"
  by (auto simp: run_len_prev[of x i j])

lemma diag_inv_next: "diag_inv x i (length x) bst = diag_inv x (Suc i) 0 bst"
  unfolding diag_inv_def by (auto simp: less_Suc_eq split: prod.splits)

lemma row_ok_next:
  assumes "new_ok x i (length x) new" "\<not> bpopular x (x ! i)"
  shows "row_ok x (Suc i) new"
  unfolding row_ok_def
proof (intro allI impI)
  fix j assume j: "j < length x"
  show "j2lenget new j = prev_run x (Suc i) j"
  proof (cases j)
    case 0
    then show ?thesis by (simp add: j2lenget_def prev_run_def)
  next
    case (Suc j')
    then have "new j' = (if x ! j' = x ! i then Some (run_len x i j') else None)"
      using assms(1) j unfolding new_ok_def by simp
    then show ?thesis using Suc by (simp add: j2lenget_def prev_run_def run_len_prev[of x i j'])
  qed
qed

lemma outer_loop_diag:
  assumes "m \<le> length x" "row_ok x m j2len" "diag_inv x m 0 bst"
  shows "diag_inv x (length x) 0 (snd (outer_loop x x 0 (length x) [m..<length x] (j2len, bst)))"
  using assms
proof (induction "length x - m" arbitrary: m j2len bst)
  case 0
  then show ?case by simp
next
  case (Suc d)
  then have lt: "m < length x" by simp
  have upt: "[m..<length x] = m # [Suc m..<length x]" using lt by (simp add: upt_rec)
  let ?st' = "inner_loop 0 (length x) m j2len (chain_b x (x ! m)) (Map.empty, bst)"
  have "row_ok x (Suc m) (fst ?st') \<and> diag_inv x (Suc m) 0 (snd ?st')"
  proof (cases "bpopular x (x ! m)")
    case True
    have "row_ok x (Suc m) Map.empty"
      unfolding row_ok_def using True
      by (auto simp: j2lenget_def prev_run_def run_len_popular)
    moreover have "diag_inv x (Suc m) 0 bst"
      using Suc.prems(3) True unfolding diag_inv_def
      by (auto simp: less_Suc_eq run_len_popular split: prod.splits)
    ultimately show ?thesis using True by (simp add: chain_b_def)
  next
    case False
    have e: "new_ok x m 0 Map.empty" by (simp add: new_ok_def)
    have c: "chain_b x (x ! m) = filter (\<lambda>j. x ! j = x ! m) [0..<length x]"
      using False by (simp add: chain_b_def indices_def)
    have il: "new_ok x m (length x) (fst ?st') \<and> diag_inv x m (length x) (snd ?st')"
      unfolding c using inner_loop_diag[OF lt False _ Suc.prems(2) e Suc.prems(3)] by simp
    then have "row_ok x (Suc m) (fst ?st')" using row_ok_next[OF _ False] by blast
    moreover have "diag_inv x (Suc m) 0 (snd ?st')"
      using il diag_inv_next[of x m "snd ?st'"] by blast
    ultimately show ?thesis by blast
  qed
  then have "diag_inv x (length x) 0 (snd (outer_loop x x 0 (length x) [Suc m..<length x] (fst ?st', snd ?st')))"
    using Suc.hyps(1)[of "Suc m" "fst ?st'" "snd ?st'"] Suc.hyps(2) lt by simp
  then show ?case unfolding upt by simp
qed

lemma extend_lo_same:
  "extend_lo (\<lambda>c. \<not> isbjunk c) x x 0 0 (d, d, s) = (0, 0, s + d)"
proof (induction d arbitrary: s)
  case 0
  then show ?case by (subst extend_lo.simps) simp
next
  case (Suc d)
  show ?case using Suc[of "s + 1"] by (subst extend_lo.simps) (simp add: isbjunk_def)
qed

lemma extend_hi_same:
  "s \<le> length x \<Longrightarrow> extend_hi (\<lambda>c. \<not> isbjunk c) x x (length x) (length x) (0, 0, s) = (0, 0, length x)"
proof (induction "length x - s" arbitrary: s)
  case 0
  then show ?case by (subst extend_hi.simps) simp
next
  case (Suc d)
  then show ?case by (subst extend_hi.simps) (simp add: isbjunk_def)
qed

lemma extend_lo_junk: "extend_lo isbjunk a b alo blo bst = bst"
  by (cases bst) (simp add: extend_lo.simps isbjunk_def)

lemma extend_hi_junk: "extend_hi isbjunk a b ahi bhi bst = bst"
  by (cases bst) (simp add: extend_hi.simps isbjunk_def)

lemma find_longest_match_same:
  "find_longest_match x x 0 (length x) 0 (length x) = (0, 0, length x)"
proof -
  let ?bst = "snd (outer_loop x x 0 (length x) [0..<length x] (Map.empty, 0, 0, 0))"
  obtain bi bj bs where bst: "?bst = (bi, bj, bs)" by (cases ?bst)
  have "diag_inv x (length x) 0 ?bst"
    by (rule outer_loop_diag) (simp_all add: row_ok_def diag_inv_def j2lenget_def prev_run_def)
  then have eq: "bi = bj" unfolding bst diag_inv_def by simp
  have "valid_best 0 (length x) 0 (length x) ?bst"
    by (rule outer_loop_inv[where n = 0]) (simp_all add: row_inv_def valid_best_def)
  then have le: "bs + bi \<le> length x" unfolding bst valid_best_def using eq by auto
  show ?thesis
    unfolding find_longest_match_def Let_def bst eq extend_lo_junk extend_hi_junk
    using le eq by (simp add: extend_lo_same extend_hi_same)
qed

section \<open>The number of matched characters\<close>

lemma matching_loop_sizes_a:
  "sizes (matching_loop a b queue acc)
     \<le> sizes acc + sum_list (map (\<lambda>(alo, ahi, blo, bhi). ahi - alo) queue)"
proof (induction a b queue acc rule: matching_loop.induct)
  case (1 a b acc)
  then show ?case by simp
next
  case (2 a b alo ahi blo bhi queue acc)
  obtain i j k where f: "find_longest_match a b alo ahi blo bhi = (i, j, k)"
    by (cases "find_longest_match a b alo ahi blo bhi")
  show ?case
  proof (cases "k = 0")
    case True
    then show ?thesis using 2(2)[OF f[symmetric] refl] f by simp
  next
    case False
    from find_longest_match_bounds[OF f False] 2(1)[OF f[symmetric] refl False] f False
    show ?thesis by (auto split: if_splits)
  qed
qed

lemma matching_loop_sizes_b:
  "sizes (matching_loop a b queue acc)
     \<le> sizes acc + sum_list (map (\<lambda>(alo, ahi, blo, bhi). bhi - blo) queue)"
proof (induction a b queue acc rule: matching_loop.induct)
  case (1 a b acc)
  then show ?case by simp
next
  case (2 a b alo ahi blo bhi queue acc)
  obtain i j k where f: "find_longest_match a b alo ahi blo bhi = (i, j, k)"
    by (cases "find_longest_match a b alo ahi blo bhi")
  show ?case
  proof (cases "k = 0")
    case True
    then show ?thesis using 2(2)[OF f[symmetric] refl] f by simp
  next
    case False
    from find_longest_match_bounds[OF f False] 2(1)[OF f[symmetric] refl False] f False
    show ?thesis by (auto split: if_splits)
  qed
qed

lemma sizes_insort: "sizes (insort x xs) = sizes [x] + sizes xs"
  by (induction xs) auto

lemma sizes_sort: "sizes (sort xs) = sizes xs"
  by (induction xs) (auto simp: sizes_insort)

lemma sizes_collapse:
  "sizes (collapse c rest acc) = sizes acc + sizes [c] + sizes rest"
  by (induction c rest acc rule: collapse.induct) auto

lemma matches_le: "matches a b \<le> length a \<and> matches a b \<le> length b"
  using matching_loop_sizes_a[of a b "[(0, length a, 0, length b)]" "[]"]
    matching_loop_sizes_b[of a b "[(0, length a, 0, length b)]" "[]"]
  by (simp add: matches_def get_matching_blocks_def Let_def sizes_collapse sizes_sort)

lemma matches_same: "matches x x = length x"
proof (cases "x = []")
  case True
  have "find_longest_match x x 0 0 0 0 = (0, 0, 0)"
    using find_longest_match_same[of x] True by simp
  then show ?thesis using True
    by (simp add: matches_def get_matching_blocks_def Let_def)
next
  case False
  then show ?thesis
    by (simp add: matches_def get_matching_blocks_def Let_def find_longest_match_same)
qed

lemma ratio_same: "ratio x x = 1"
  by (simp add: ratio_def calculate_ratio_def matches_same)

lemma ratio_bounds: "0 \<le> ratio a b \<and> ratio a b \<le> 1"
proof -
  have "2 * matches a b \<le> length a + length b" using matches_le[of a b] by linarith
  then have "2 * real (matches a b) \<le> real (length a + length b)"
    by (metis of_nat_le_iff of_nat_mult of_nat_numeral)
  then show ?thesis by (auto simp: ratio_def calculate_ratio_def divide_le_eq)
qed

lemma lower_Nil_iff: "lower s = [] \<longleftrightarrow> s = []"
  by (simp add: lower_def)

section \<open>The rows of the merge\<close>

lemma both_rows_append: "both_rows (xs @ ys) = both_rows xs @ both_rows ys"
  by (induction xs rule: both_rows.induct) auto

lemma left_only_rows_append: "left_only_rows (xs @ ys) = left_only_rows xs @ left_only_rows ys"
  by (induction xs rule: left_only_rows.induct) auto

lemma right_only_rows_append: "right_only_rows (xs @ ys) = right_only_rows xs @ right_only_rows ys"
  by (induction xs rule: right_only_rows.induct) auto

lemma both_rows_concat: "both_rows (concat xss) = concat (map both_rows xss)"
  by (induction xss) (auto simp: both_rows_append)

lemma left_only_rows_concat: "left_only_rows (concat xss) = concat (map left_only_rows xss)"
  by (induction xss) (auto simp: left_only_rows_append)

lemma right_only_rows_concat: "right_only_rows (concat xss) = concat (map right_only_rows xss)"
  by (induction xss) (auto simp: right_only_rows_append)

lemma rows_of_Left_only:
  "both_rows (map Left_only ls) = []" "left_only_rows (map Left_only ls) = ls"
  "right_only_rows (map Left_only ls) = []"
  by (induction ls) auto

lemma rows_of_Right_only:
  "both_rows (map Right_only rs) = []" "left_only_rows (map Right_only rs) = []"
  "right_only_rows (map Right_only rs) = rs"
  by (induction rs) auto

lemma rows_of_Both:
  "both_rows (map (Both l) rs) = map (Pair l) rs" "left_only_rows (map (Both l) rs) = []"
  "right_only_rows (map (Both l) rs) = []"
  by (induction rs) auto

lemma rows_of_pairs:
  "both_rows (concat (map (\<lambda>l. map (Both l) rs) ls)) = List.product ls rs"
  "left_only_rows (concat (map (\<lambda>l. map (Both l) rs) ls)) = []"
  "right_only_rows (concat (map (\<lambda>l. map (Both l) rs) ls)) = []"
  by (induction ls) (auto simp: both_rows_append left_only_rows_append right_only_rows_append rows_of_Both)

lemma product_Nil_right: "List.product xs [] = []"
  by (induction xs) auto

lemma both_rows_group:
  "both_rows (merge_group df_a df_b k) = List.product (rows_with k df_a) (rows_with k df_b)"
  by (simp add: merge_group_def Let_def rows_of_Left_only rows_of_Right_only rows_of_pairs
      rows_with_def product_Nil_right)

lemma left_only_rows_group:
  "left_only_rows (merge_group df_a df_b k) = (if rows_with k df_b = [] then rows_with k df_a else [])"
  by (simp add: merge_group_def Let_def rows_of_Left_only rows_of_Right_only rows_of_pairs rows_with_def)

lemma right_only_rows_group:
  "right_only_rows (merge_group df_a df_b k) = (if rows_with k df_a = [] then rows_with k df_b else [])"
  by (simp add: merge_group_def Let_def rows_of_Left_only rows_of_Right_only rows_of_pairs rows_with_def)

lemma join_keys_props:
  "distinct (join_keys df_a df_b)" "sorted (join_keys df_a df_b)"
  "set (join_keys df_a df_b) = Clave ` set df_a \<union> Clave ` set df_b"
  by (simp_all add: join_keys_def)

lemma join_keys_commute: "join_keys df_b df_a = join_keys df_a df_b"
  by (rule sorted_distinct_set_unique) (auto simp: join_keys_props)

lemma both_rows_merge:
  "both_rows (merge_outer df_a df_b)
     = concat (map (\<lambda>k. List.product (rows_with k df_a) (rows_with k df_b)) (join_keys df_a df_b))"
  by (simp add: merge_outer_def both_rows_concat comp_def both_rows_group join_keys_def)

lemma left_only_rows_merge:
  "left_only_rows (merge_outer df_a df_b)
     = concat (map (\<lambda>k. if rows_with k df_b = [] then rows_with k df_a else []) (join_keys df_a df_b))"
  by (simp add: merge_outer_def left_only_rows_concat comp_def left_only_rows_group join_keys_def)

lemma right_only_rows_merge:
  "right_only_rows (merge_outer df_a df_b)
     = concat (map (\<lambda>k. if rows_with k df_a = [] then rows_with k df_b else []) (join_keys df_a df_b))"
  by (simp add: merge_outer_def right_only_rows_concat comp_def right_only_rows_group join_keys_def)

section \<open>The analysis never raises\<close>

lemma diferencia_pct_value:
  "diferencia_pct dif precio_a = Inr (if precio_a \<noteq> 0 then dif / precio_a * 100 else 0)"
  by (simp add: diferencia_pct_def py_truediv_def)

lemma common_row_value: "common_row lr = Inr (match_of lr)"
  by (cases lr) (simp add: common_row_def match_of_def diferencia_pct_value Let_def)

lemma apply_rows_common: "apply_rows common_row xs = Inr (map match_of xs)"
  by (induction xs) (simp_all add: common_row_value)

lemma analysis_value:
  "analysis df_a df_b =
     Inr \<lparr>total_a = length df_a, total_b = length df_b,
          common_count = length (both_rows (merge_outer df_a df_b)),
          only_a_count = length (left_only_rows (merge_outer df_a df_b)),
          only_b_count = length (right_only_rows (merge_outer df_a df_b)),
          common_df = map match_of (both_rows (merge_outer df_a df_b)),
          only_a_df = left_only_rows (merge_outer df_a df_b),
          only_b_df = right_only_rows (merge_outer df_a df_b)\<rparr>"
  by (simp add: analysis_def Let_def apply_rows_common)

section \<open>Counting rows and keys\<close>

lemma sum_indicator:
  "distinct ks \<Longrightarrow> a \<in> set ks \<Longrightarrow> (\<Sum>k\<leftarrow>ks. if a = k then 1 else 0) = (1::nat)"
proof (induction ks)
  case Nil
  then show ?case by simp
next
  case (Cons k ks)
  show ?case
  proof (cases "a = k")
    case True
    then have "a \<notin> set ks" using Cons.prems by simp
    then have "(\<Sum>k\<leftarrow>ks. if a = k then 1 else 0) = (0::nat)" by (induction ks) auto
    then show ?thesis using True by simp
  next
    case False
    then show ?thesis using Cons by simp
  qed
qed

lemma sum_rows_with:
  "distinct ks \<Longrightarrow> Clave ` set df \<subseteq> set ks \<Longrightarrow>
   (\<Sum>k\<leftarrow>ks. length (rows_with k df)) = length df"
proof (induction df)
  case Nil
  then show ?case by (simp add: rows_with_def)
next
  case (Cons r df)
  have "(\<Sum>k\<leftarrow>ks. length (rows_with k (r # df)))
      = (\<Sum>k\<leftarrow>ks. (if Clave r = k then 1 else 0) + length (rows_with k df))"
    by (rule arg_cong[where f = sum_list]) (simp add: rows_with_def)
  also have "\<dots> = (\<Sum>k\<leftarrow>ks. if Clave r = k then 1 else 0) + (\<Sum>k\<leftarrow>ks. length (rows_with k df))"
    by (simp add: sum_list_addf)
  also have "\<dots> = 1 + length df"
    using Cons sum_indicator[of ks "Clave r"] by simp
  finally show ?case by simp
qed

lemma rows_with_distinct:
  "distinct (map Clave df) \<Longrightarrow> length (rows_with k df) \<le> 1"
  by (induction df) (auto simp: rows_with_def filter_empty_conv image_iff)

lemma group_count:
  assumes "length (rows_with k df_b) \<le> 1"
  shows "length (List.product (rows_with k df_a) (rows_with k df_b))
         + length (if rows_with k df_b = [] then rows_with k df_a else [])
       = length (rows_with k df_a)"
proof (cases "rows_with k df_b")
  case Nil
  then show ?thesis by simp
next
  case (Cons r rs)
  then have "rs = []" using assms by simp
  then show ?thesis using Cons by simp
qed

lemma length_concat_map: "length (concat (map f ks)) = (\<Sum>k\<leftarrow>ks. length (f k))"
  by (induction ks) auto

lemma count_left:
  assumes "distinct (map Clave df_b)"
  shows "length (both_rows (merge_outer df_a df_b)) + length (left_only_rows (merge_outer df_a df_b))
       = length df_a"
proof -
  let ?ks = "join_keys df_a df_b"
  have "length (both_rows (merge_outer df_a df_b)) + length (left_only_rows (merge_outer df_a df_b))
      = (\<Sum>k\<leftarrow>?ks. length (List.product (rows_with k df_a) (rows_with k df_b))
                   + length (if rows_with k df_b = [] then rows_with k df_a else []))"
    unfolding both_rows_merge left_only_rows_merge length_concat_map
    by (simp add: sum_list_addf)
  also have "\<dots> = (\<Sum>k\<leftarrow>?ks. length (rows_with k df_a))"
    by (rule arg_cong[where f = sum_list], rule map_cong[OF refl])
       (rule group_count[OF rows_with_distinct[OF assms]])
  also have "\<dots> = length df_a"
    by (rule sum_rows_with) (auto simp: join_keys_props)
  finally show ?thesis .
qed

lemma count_right:
  assumes "distinct (map Clave df_a)"
  shows "length (both_rows (merge_outer df_a df_b)) + length (right_only_rows (merge_outer df_a df_b))
       = length df_b"
proof -
  have b: "length (both_rows (merge_outer df_a df_b)) = length (both_rows (merge_outer df_b df_a))"
    unfolding both_rows_merge length_concat_map join_keys_commute[of df_b df_a]
    by (simp add: mult.commute)
  have r: "right_only_rows (merge_outer df_a df_b) = left_only_rows (merge_outer df_b df_a)"
    unfolding right_only_rows_merge left_only_rows_merge join_keys_commute[of df_b df_a] ..
  show ?thesis unfolding b r by (rule count_left[OF assms])
qed

lemma set_left_only:
  "set (left_only_rows (merge_outer df_a df_b)) = {r \<in> set df_a. Clave r \<notin> Clave ` set df_b}"
  unfolding left_only_rows_merge
  by (auto simp: join_keys_props rows_with_def filter_empty_conv split: if_splits) (metis imageI)+

lemma set_right_only:
  "set (right_only_rows (merge_outer df_a df_b)) = {r \<in> set df_b. Clave r \<notin> Clave ` set df_a}"
  unfolding right_only_rows_merge
  by (auto simp: join_keys_props rows_with_def filter_empty_conv split: if_splits) (metis imageI)+

lemma set_both:
  "set (both_rows (merge_outer df_a df_b)) = {(l, r). l \<in> set df_a \<and> r \<in> set df_b \<and> Clave l = Clave r}"
  unfolding both_rows_merge
  by (auto simp: join_keys_props rows_with_def)

section \<open>Price coercion\<close>

lemma py_float_error: "py_float s = Inl e \<Longrightarrow> e = ValueError"
  by (simp add: py_float_def Let_def split: if_splits)

lemma clean_price_value:
  "clean_price (PyStr s) = Inr (case py_float (re_sub_non_numeric s) of Inr y \<Rightarrow> y | Inl e \<Rightarrow> 0)"
proof (cases "s = []")
  case True
  then show ?thesis by (simp add: re_sub_non_numeric_def py_float_def)
next
  case False
  show ?thesis
  proof (cases "py_float (re_sub_non_numeric s)")
    case (Inl e)
    then show ?thesis using False py_float_error[OF Inl] by simp
  next
    case (Inr y)
    then show ?thesis using False by simp
  qed
qed




section \<open>The stages of normalisation\<close>

lemma normalize_columns_stages:
  "normalize_columns float_str df =
     (strip_headers df,
      if ''Clave'' \<notin> snd ` set (col_map_of (columns (strip_headers df)))
      then Inr (strip_headers df, False)
      else clean_types float_str
             (fill_defaults (rename (col_map_of (columns (strip_headers df))) (strip_headers df))))"
  unfolding normalize_columns_def strip_headers_def col_map_of_def fill_defaults_def clean_types_def Let_def
  by (rule if_split[THEN iffD2]) simp

lemma clean_types_True: "clean_types float_str df = Inr (out, b) \<Longrightarrow> b"
  by (auto simp: clean_types_def split: sum.splits)

lemma normalize_caller: "fst (normalize_columns float_str df) = strip_headers df"
  by (simp add: normalize_columns_stages)

lemma normalize_False:
  "snd (normalize_columns float_str df) = Inr (out, False) \<Longrightarrow> out = strip_headers df"
  using clean_types_True[of float_str _ out False]
  by (auto simp: normalize_columns_stages split: if_splits)

lemma snd_find_col: "snd ` set (find_col candidates name cs) \<subseteq> {name}"
  by (auto simp: find_col_def split: option.splits)

lemma find_col_empty_iff: "find_col candidates name cs = [] \<longleftrightarrow> set candidates \<inter> set cs = {}"
proof (cases "find (\<lambda>c. c \<in> set cs) candidates")
  case None
  then show ?thesis using find_None_iff[of "\<lambda>c. c \<in> set cs" candidates]
    by (auto simp: find_col_def)
next
  case (Some c)
  then have "\<exists>x. x \<in> set candidates \<and> x \<in> set cs"
    using find_None_iff[of "\<lambda>c. c \<in> set cs" candidates] by simp
  then show ?thesis using Some by (auto simp: find_col_def)
qed

lemma col_map_Clave:
  "''Clave'' \<in> snd ` set (find_col clave_cols ''Clave'' cs @ find_col desc_cols ''Descripcion'' cs
       @ find_col price_cols ''Precio'' cs)
   \<longleftrightarrow> set clave_cols \<inter> set cs \<noteq> {}"
proof -
  have d: "''Clave'' \<notin> snd ` set (find_col desc_cols ''Descripcion'' cs)"
    using snd_find_col[of desc_cols "''Descripcion''" cs] by auto
  have p: "''Clave'' \<notin> snd ` set (find_col price_cols ''Precio'' cs)"
    using snd_find_col[of price_cols "''Precio''" cs] by auto
  have c: "''Clave'' \<in> snd ` set (find_col clave_cols ''Clave'' cs) \<longleftrightarrow> find_col clave_cols ''Clave'' cs \<noteq> []"
    by (auto simp: find_col_def split: option.splits)
  show ?thesis using d p c find_col_empty_iff[of clave_cols "''Clave''" cs]
    by (simp add: image_Un)
qed

lemma columns_strip_headers: "columns (strip_headers df) = map py_strip (columns df)"
  by (simp add: columns_def strip_headers_def comp_def case_prod_unfold)

lemma normalize_fails_iff:
  "(\<exists>out. snd (normalize_columns float_str df) = Inr (out, False))
   \<longleftrightarrow> set clave_cols \<inter> py_strip ` set (columns df) = {}"
  using col_map_Clave[of "columns (strip_headers df)"] clean_types_True[of float_str _ _ False]
  by (auto simp: normalize_columns_stages col_map_of_def columns_strip_headers)

section \<open>Frames of the same shape\<close>

lemma same_shape_refl: "same_shape df df"
  by (simp add: same_shape_def)

lemma same_shape_trans: "same_shape a b \<Longrightarrow> same_shape b c \<Longrightarrow> same_shape a c"
  by (simp add: same_shape_def)

lemma same_shape_length: "same_shape df df' \<Longrightarrow> length (cols df') = length (cols df)"
  unfolding same_shape_def by (metis length_map)

lemma same_shape_label:
  "same_shape df df' \<Longrightarrow> j < length (cols df) \<Longrightarrow> fst (cols df' ! j) = fst (cols df ! j)"
  unfolding same_shape_def by (metis length_map nth_map)

lemma same_shape_locs: "same_shape df df' \<Longrightarrow> locs l df' = locs l df"
  unfolding locs_def
  using same_shape_length[of df df'] same_shape_label[of df df']
  by (auto intro!: filter_cong)

lemma same_shape_wf: "same_shape df df' \<Longrightarrow> wf_frame df \<Longrightarrow> wf_frame df'"
proof -
  assume s: "same_shape df df'" and w: "wf_frame df"
  have "set (map (length \<circ> snd) (cols df')) = set (map (length \<circ> snd) (cols df))"
    using s by (simp add: same_shape_def)
  then have "(length \<circ> snd) ` set (cols df') = (length \<circ> snd) ` set (cols df)" by simp
  then show ?thesis using w s unfolding wf_frame_def same_shape_def by force
qed

lemma kept_trans:
  "same_shape a b \<Longrightarrow> kept l a b \<Longrightarrow> kept l b c \<Longrightarrow> kept l a c"
  unfolding kept_def using same_shape_length[of a b] same_shape_label[of a b] by auto

lemma map_col_shape:
  "same_shape df (map_col f i df)"
proof (cases "i < length (cols df)")
  case True
  then show ?thesis
    by (auto simp: same_shape_def map_col_def map_update list_update_same_conv)
next
  case False
  then have "(cols df)[i := (fst (cols df ! i), map f (snd (cols df ! i)))] = cols df"
    by (simp add: list_update_beyond)
  then show ?thesis by (simp add: same_shape_def map_col_def)
qed

lemma map_col_kept:
  "i < length (cols df) \<Longrightarrow> fst (cols df ! i) \<noteq> l \<Longrightarrow> kept l df (map_col f i df)"
  by (auto simp: kept_def map_col_def nth_list_update)

lemma foldr_map_col:
  "\<forall>i \<in> set is. i < length (cols df) \<and> fst (cols df ! i) \<noteq> l \<Longrightarrow>
   same_shape df (foldr (map_col f) is df) \<and> kept l df (foldr (map_col f) is df)"
proof (induction "is")
  case Nil
  then show ?case by (simp add: same_shape_refl kept_def)
next
  case (Cons i "is")
  let ?d = "foldr (map_col f) is df"
  have ih: "same_shape df ?d" "kept l df ?d" using Cons by auto
  have i: "i < length (cols ?d)" "fst (cols ?d ! i) \<noteq> l"
    using Cons.prems same_shape_length[OF ih(1)] same_shape_label[OF ih(1), of i] by auto
  have "same_shape ?d (map_col f i ?d)" by (rule map_col_shape)
  moreover have "kept l ?d (map_col f i ?d)" using i by (rule map_col_kept)
  ultimately show ?case
    using ih same_shape_trans[of df ?d] kept_trans[of df ?d l] by simp
qed

lemma locs_iff: "i \<in> set (locs l df) \<longleftrightarrow> i < length (cols df) \<and> fst (cols df ! i) = l"
  by (auto simp: locs_def)

lemma clean_descripcion_shape:
  assumes "clean_descripcion float_str df = Inr df'"
  shows "same_shape df df' \<and> kept ''Clave'' df df'"
proof -
  let ?is = "locs ''Descripcion'' df"
  have d: "df' = foldr (map_col (\<lambda>c. fillna (PyStr []) (PyStr (py_str float_str c)))) ?is df"
    using assms by (auto simp: clean_descripcion_def split: list.splits)
  have "\<forall>i \<in> set ?is. i < length (cols df) \<and> fst (cols df ! i) \<noteq> ''Clave''"
    by (simp add: locs_iff)
  from foldr_map_col[OF this] d show ?thesis by simp
qed

lemma apply_rows_length: "apply_rows f xs = Inr ys \<Longrightarrow> length ys = length xs"
  by (induction xs arbitrary: ys) (auto split: sum.splits)

lemma clean_precio_shape:
  assumes "clean_precio df = Inr df'"
  shows "same_shape df df' \<and> kept ''Clave'' df df'"
proof (cases "locs ''Precio'' df")
  case Nil
  then show ?thesis using assms by (simp add: clean_precio_def)
next
  case (Cons i "is")
  show ?thesis
  proof (cases "is")
    case Nil
    then have l: "locs ''Precio'' df = [i]" using Cons by simp
    then have i: "i < length (cols df)" "fst (cols df ! i) = ''Precio''"
      using locs_iff[of i "''Precio''" df] by auto
    from assms l obtain ps where
      ps: "apply_rows clean_price (snd (cols df ! i)) = Inr ps"
      and d: "df' = df\<lparr>cols := (cols df)[i := (''Precio'', map (\<lambda>p. PyFloat (round2 p)) ps)]\<rparr>"
      by (auto simp: clean_precio_def split: sum.splits)
    have len: "length ps = length (snd (cols df ! i))" using apply_rows_length[OF ps] .
    have "same_shape df df'"
      unfolding d same_shape_def using i len
      by (auto simp: map_update list_update_same_conv)
    moreover have "kept ''Clave'' df df'"
      unfolding d kept_def using i by (auto simp: nth_list_update)
    ultimately show ?thesis by simp
  next
    case (Cons j js)
    then have "df' = df" using assms \<open>locs ''Precio'' df = i # is\<close>
      by (auto simp: clean_precio_def split: if_splits)
    then show ?thesis by (simp add: same_shape_refl kept_def)
  qed
qed

lemma filter_nths:
  "filter P xs = map ((!) xs) (filter (\<lambda>i. P (xs ! i)) [0..<length xs])"
proof (induction xs rule: rev_induct)
  case Nil
  then show ?case by simp
next
  case (snoc x xs)
  have a: "filter (\<lambda>i. P ((xs @ [x]) ! i)) [0..<length xs] = filter (\<lambda>i. P (xs ! i)) [0..<length xs]"
    by (rule filter_cong) (auto simp: nth_append)
  have b: "map ((!) (xs @ [x])) (filter (\<lambda>i. P (xs ! i)) [0..<length xs])
         = map ((!) xs) (filter (\<lambda>i. P (xs ! i)) [0..<length xs])"
    by (rule map_cong) (auto simp: nth_append)
  show ?case using snoc by (simp add: a b)
qed

lemma filter_locs: "filter (\<lambda>c. fst c = l) (cols df) = map ((!) (cols df)) (locs l df)"
  unfolding locs_def by (rule filter_nths)

lemma clean_clave_result:
  assumes "clean_clave float_str df = Inr df'"
  shows "\<exists>i. locs ''Clave'' df = [i] \<and> i < length (cols df) \<and> fst (cols df ! i) = ''Clave''
           \<and> df' = map_col (\<lambda>c. PyStr (py_strip (py_str float_str c))) i df"
proof -
  from assms obtain i where l: "locs ''Clave'' df = [i]"
    and d: "df' = map_col (\<lambda>c. PyStr (py_strip (py_str float_str c))) i df"
    by (auto simp: clean_clave_def split: list.splits)
  have "i \<in> set (locs ''Clave'' df)" using l by simp
  then show ?thesis using l d locs_iff[of i "''Clave''" df] by blast
qed

lemma select_result:
  assumes "select ls df = Inr out"
  shows "nrows out = nrows df
       \<and> cols out = concat (map (\<lambda>l. filter (\<lambda>c. fst c = l) (cols df)) ls)"
  using assms by (auto simp: select_def split: if_splits)

lemma add_column_wf: "wf_frame df \<Longrightarrow> wf_frame (add_column l v df)"
  by (auto simp: wf_frame_def add_column_def)

lemma add_column_nth:
  "j < length (cols df) \<Longrightarrow> cols (add_column l v df) ! j = cols df ! j"
  by (simp add: add_column_def nth_append)

lemma add_column_locs:
  "l' \<noteq> l \<Longrightarrow> locs l' (add_column l v df) = locs l' df"
proof -
  assume ne: "l' \<noteq> l"
  have "filter (\<lambda>i. fst ((cols df @ [(l, replicate (nrows df) v)]) ! i) = l') [0..<length (cols df)]
      = filter (\<lambda>i. fst (cols df ! i) = l') [0..<length (cols df)]"
    by (rule filter_cong) (auto simp: nth_append)
  then show ?thesis using ne by (simp add: locs_def add_column_def)
qed

lemma fill_defaults_props:
  "nrows (fill_defaults df) = nrows df"
  "wf_frame df \<Longrightarrow> wf_frame (fill_defaults df)"
  "locs ''Clave'' (fill_defaults df) = locs ''Clave'' df"
  "j < length (cols df) \<Longrightarrow> cols (fill_defaults df) ! j = cols df ! j"
  by (auto simp: fill_defaults_def Let_def add_column_wf add_column_locs add_column_nth)
     (auto simp: add_column_def nth_append)

lemma rename_props:
  "nrows (rename cm df) = nrows df"
  "length (cols (rename cm df)) = length (cols df)"
  "wf_frame df \<Longrightarrow> wf_frame (rename cm df)"
  "j < length (cols df) \<Longrightarrow> snd (cols (rename cm df) ! j) = snd (cols df ! j)"
  "j < length (cols df) \<Longrightarrow>
     fst (cols (rename cm df) ! j)
       = (case map_of cm (fst (cols df ! j)) of None \<Rightarrow> fst (cols df ! j) | Some l' \<Rightarrow> l')"
  by (auto simp: rename_def wf_frame_def case_prod_unfold)

lemma strip_headers_props:
  "nrows (strip_headers df) = nrows df"
  "length (cols (strip_headers df)) = length (cols df)"
  "wf_frame df \<Longrightarrow> wf_frame (strip_headers df)"
  "j < length (cols df) \<Longrightarrow> cols (strip_headers df) ! j = (py_strip (fst (cols df ! j)), snd (cols df ! j))"
  by (auto simp: strip_headers_def wf_frame_def case_prod_unfold)

lemma find_Some_member: "find P xs = Some x \<Longrightarrow> x \<in> set xs"
  by (induction xs) (auto split: if_splits)

lemma find_col_member:
  "(l, name) \<in> set (find_col candidates name' cs) \<Longrightarrow> l \<in> set candidates \<and> name = name'"
proof (cases "find (\<lambda>c. c \<in> set cs) candidates")
  case None
  assume "(l, name) \<in> set (find_col candidates name' cs)"
  then show ?thesis using None by (simp add: find_col_def)
next
  case (Some c)
  assume "(l, name) \<in> set (find_col candidates name' cs)"
  then have "l = c \<and> name = name'" using Some by (simp add: find_col_def)
  then show ?thesis using find_Some_member[OF Some] by simp
qed

lemma renamed_Clave:
  assumes "(case map_of (col_map_of cs) l of None \<Rightarrow> l | Some l' \<Rightarrow> l') = ''Clave''"
  shows "l \<in> set clave_cols"
proof (cases "map_of (col_map_of cs) l")
  case None
  then show ?thesis using assms by (simp add: clave_cols_def)
next
  case (Some l')
  then have "(l, ''Clave'') \<in> set (col_map_of cs)" using assms by (auto dest: map_of_SomeD)
  then show ?thesis
    unfolding col_map_of_def using find_col_member[of l "''Clave''"] by auto
qed

lemma clean_types_result:
  assumes "clean_types float_str d3 = Inr (out, ok)"
  shows "\<exists>d4 d5 d6. clean_clave float_str d3 = Inr d4 \<and> clean_descripcion float_str d4 = Inr d5
           \<and> clean_precio d5 = Inr d6 \<and> select [''Clave'', ''Descripcion'', ''Precio''] d6 = Inr out"
  using assms by (auto simp: clean_types_def split: sum.splits)

lemma normalize_True:
  assumes "snd (normalize_columns float_str df) = Inr (out, True)"
  shows "clean_types float_str
           (fill_defaults (rename (col_map_of (columns (strip_headers df))) (strip_headers df)))
         = Inr (out, True)"
  using assms by (auto simp: normalize_columns_stages split: if_splits)

section \<open>Unique labels and the three canonical columns\<close>

lemma columns_nth: "i < length (cols df) \<Longrightarrow> columns df ! i = fst (cols df ! i)"
  by (simp add: columns_def)

lemma label_mem_iff: "l \<in> set (columns df) \<longleftrightarrow> (\<exists>i < length (cols df). fst (cols df ! i) = l)"
proof
  assume "l \<in> set (columns df)"
  then obtain i where i: "i < length (columns df)" "columns df ! i = l"
    by (auto simp: in_set_conv_nth)
  then have "i < length (cols df)" by (simp add: columns_def)
  then show "\<exists>i < length (cols df). fst (cols df ! i) = l"
    using i(2) columns_nth[of i df] by (intro exI[of _ i]) simp
next
  assume "\<exists>i < length (cols df). fst (cols df ! i) = l"
  then obtain i where i: "i < length (cols df)" "fst (cols df ! i) = l" by blast
  then have "i < length (columns df)" "columns df ! i = l"
    by (simp_all add: columns_def)
  then show "l \<in> set (columns df)" using nth_mem by blast
qed

lemma distinct_singleton:
  assumes d: "distinct xs" and s: "set xs = {a}"
  shows "xs = [a]"
proof (cases xs)
  case Nil
  then show ?thesis using s by simp
next
  case (Cons b ys)
  then have b: "b = a" using s by auto
  have "set ys \<subseteq> {a}" using s Cons by auto
  moreover have "a \<notin> set ys" using d Cons b by simp
  ultimately have "set ys = {}" by (cases ys) auto
  then show ?thesis using Cons b by simp
qed

lemma locs_singleton:
  assumes "l \<in> set (columns df)" "uniq_label l df"
  shows "\<exists>i. locs l df = [i]"
proof -
  from assms(1) obtain i where i: "i < length (cols df)" "fst (cols df ! i) = l"
    using label_mem_iff by blast
  have "\<And>j. j \<in> set (locs l df) \<Longrightarrow> j = i"
    using i assms(2) unfolding uniq_label_def locs_iff by blast
  moreover have "i \<in> set (locs l df)" using i by (simp add: locs_iff)
  ultimately have "set (locs l df) = {i}" by blast
  moreover have "distinct (locs l df)" by (simp add: locs_def)
  ultimately have "locs l df = [i]" by (rule distinct_singleton[rotated])
  then show ?thesis by blast
qed

lemma same_shape_uniq:
  assumes "same_shape df df'" "uniq_label l df"
  shows "uniq_label l df'"
  unfolding uniq_label_def
proof (intro allI impI)
  fix i j
  assume a: "i < length (cols df') \<and> j < length (cols df')
           \<and> fst (cols df' ! i) = l \<and> fst (cols df' ! j) = l"
  then have "i < length (cols df)" "j < length (cols df)"
    using same_shape_length[OF assms(1)] by simp_all
  moreover from this have "fst (cols df ! i) = l" "fst (cols df ! j) = l"
    using a same_shape_label[OF assms(1)] by simp_all
  ultimately show "i = j" using assms(2) unfolding uniq_label_def by blast
qed

lemma same_shape_columns: "same_shape df df' \<Longrightarrow> columns df' = columns df"
  by (simp add: same_shape_def columns_def)

lemma add_column_uniq:
  assumes "l' \<notin> set (columns df)" "uniq_label l df"
  shows "uniq_label l (add_column l' v df)"
proof (cases "l = l'")
  case True
  have "\<And>i. i < length (cols df) \<Longrightarrow> fst (cols df ! i) \<noteq> l'"
    using assms(1) label_mem_iff by blast
  then show ?thesis
    unfolding uniq_label_def add_column_def using True
    by (auto simp: nth_append less_Suc_eq)
next
  case False
  then show ?thesis
    using assms(2) unfolding uniq_label_def add_column_def
    by (auto simp: nth_append less_Suc_eq)
qed

lemma add_column_columns: "columns (add_column l v df) = columns df @ [l]"
  by (simp add: columns_def add_column_def)

lemma fill_defaults_uniq:
  assumes "uniq_label l df"
  shows "uniq_label l (fill_defaults df)"
proof -
  let ?d2 = "if ''Descripcion'' \<notin> set (columns df) then add_column ''Descripcion'' (PyStr []) df else df"
  have u2: "uniq_label l ?d2" using assms add_column_uniq[of "''Descripcion''" df l] by simp
  have "uniq_label l (if ''Precio'' \<notin> set (columns ?d2) then add_column ''Precio'' (PyFloat 0) ?d2 else ?d2)"
    using u2 add_column_uniq[of "''Precio''" ?d2 l] by (cases "''Precio'' \<notin> set (columns ?d2)") simp_all
  then show ?thesis unfolding fill_defaults_def Let_def .
qed

lemma fill_defaults_columns:
  "set (columns df) \<subseteq> set (columns (fill_defaults df))"
  "''Descripcion'' \<in> set (columns (fill_defaults df))"
  "''Precio'' \<in> set (columns (fill_defaults df))"
  by (auto simp: fill_defaults_def Let_def add_column_columns)

lemma candidates_of_simps:
  "candidates_of ''Clave'' = clave_cols"
  "candidates_of ''Descripcion'' = desc_cols"
  "candidates_of ''Precio'' = price_cols"
  by (simp_all add: candidates_of_def)

lemma col_map_entry:
  assumes "(l, name) \<in> set (col_map_of cs)"
  shows "name \<in> {''Clave'', ''Descripcion'', ''Precio''}
       \<and> find (\<lambda>c. c \<in> set cs) (candidates_of name) = Some l"
proof -
  have *: "\<And>cands n. (l, name) \<in> set (find_col cands n cs) \<Longrightarrow>
          name = n \<and> find (\<lambda>c. c \<in> set cs) cands = Some l"
    by (auto simp: find_col_def split: option.splits)
  from assms consider "(l, name) \<in> set (find_col clave_cols ''Clave'' cs)"
    | "(l, name) \<in> set (find_col desc_cols ''Descripcion'' cs)"
    | "(l, name) \<in> set (find_col price_cols ''Precio'' cs)"
    unfolding col_map_of_def by auto
  then show ?thesis
  proof cases
    case 1
    from *[OF this] show ?thesis by (simp add: candidates_of_simps(1))
  next
    case 2
    from *[OF this] show ?thesis by (simp add: candidates_of_simps(2))
  next
    case 3
    from *[OF this] show ?thesis by (simp add: candidates_of_simps(3))
  qed
qed

lemma find_canonical:
  assumes "name \<in> {''Clave'', ''Descripcion'', ''Precio''}" "name \<in> set cs"
    and "\<not> (''Descripci'' @ [CHR 0xF3] @ ''n'' \<in> set cs \<and> ''Descripcion'' \<in> set cs)"
  shows "find (\<lambda>c. c \<in> set cs) (candidates_of name) = Some name"
proof -
  consider "name = ''Clave''" | "name = ''Descripcion''" | "name = ''Precio''"
    using assms(1) by blast
  then show ?thesis
  proof cases
    case 1
    then show ?thesis using assms(2) by (simp add: candidates_of_simps(1) clave_cols_def)
  next
    case 2
    then show ?thesis using assms(2,3) by (simp add: candidates_of_simps(2) desc_cols_def)
  next
    case 3
    then show ?thesis using assms(2) by (simp add: candidates_of_simps(3) price_cols_def)
  qed
qed

lemma renamed_found:
  assumes "(case map_of (col_map_of cs) l of None \<Rightarrow> l | Some l' \<Rightarrow> l') = name"
    and "name \<in> {''Clave'', ''Descripcion'', ''Precio''}" "l \<in> set cs"
    and "\<not> (''Descripci'' @ [CHR 0xF3] @ ''n'' \<in> set cs \<and> ''Descripcion'' \<in> set cs)"
  shows "find (\<lambda>c. c \<in> set cs) (candidates_of name) = Some l"
proof (cases "map_of (col_map_of cs) l")
  case None
  then have "l = name" using assms(1) by simp
  then show ?thesis using find_canonical[OF assms(2) _ assms(4)] assms(3) by simp
next
  case (Some l')
  then have "(l, name) \<in> set (col_map_of cs)" using assms(1) by (auto dest: map_of_SomeD)
  then show ?thesis using col_map_entry by blast
qed

lemma rename_uniq:
  assumes "distinct (columns df)" "name \<in> {''Clave'', ''Descripcion'', ''Precio''}"
    and "\<not> (''Descripci'' @ [CHR 0xF3] @ ''n'' \<in> set (columns df) \<and> ''Descripcion'' \<in> set (columns df))"
  shows "uniq_label name (rename (col_map_of (columns df)) df)"
  unfolding uniq_label_def
proof (intro allI impI)
  fix i j
  let ?cm = "col_map_of (columns df)"
  assume a: "i < length (cols (rename ?cm df)) \<and> j < length (cols (rename ?cm df))
           \<and> fst (cols (rename ?cm df) ! i) = name \<and> fst (cols (rename ?cm df) ! j) = name"
  then have ij: "i < length (cols df)" "j < length (cols df)" by (simp_all add: rename_props(2))
  have mem: "fst (cols df ! i) \<in> set (columns df)" "fst (cols df ! j) \<in> set (columns df)"
    using ij label_mem_iff by blast+
  have "find (\<lambda>c. c \<in> set (columns df)) (candidates_of name) = Some (fst (cols df ! i))"
    using a rename_props(5)[OF ij(1), of ?cm] renamed_found[OF _ assms(2) mem(1) assms(3)] by simp
  moreover have "find (\<lambda>c. c \<in> set (columns df)) (candidates_of name) = Some (fst (cols df ! j))"
    using a rename_props(5)[OF ij(2), of ?cm] renamed_found[OF _ assms(2) mem(2) assms(3)] by simp
  ultimately have "columns df ! i = columns df ! j" using ij by (simp add: columns_nth)
  moreover have "i < length (columns df)" "j < length (columns df)"
    using ij by (simp_all add: columns_def)
  ultimately show "i = j" using assms(1) nth_eq_iff_index_eq[of "columns df" i j] by blast
qed

lemma rename_has_Clave:
  assumes "set clave_cols \<inter> set (columns df) \<noteq> {}"
  shows "''Clave'' \<in> set (columns (rename (col_map_of (columns df)) df))"
proof -
  let ?cs = "columns df"
  obtain c where f: "find (\<lambda>c. c \<in> set ?cs) clave_cols = Some c"
    using assms find_None_iff[of "\<lambda>c. c \<in> set ?cs" clave_cols] by (cases "find (\<lambda>c. c \<in> set ?cs) clave_cols") auto
  then have m: "map_of (col_map_of ?cs) c = Some ''Clave''"
    by (simp add: col_map_of_def find_col_def)
  have "c \<in> set ?cs" using f by (auto simp: find_Some_iff)
  then obtain i where i: "i < length (cols df)" "fst (cols df ! i) = c" using label_mem_iff by blast
  have "fst (cols (rename (col_map_of ?cs) df) ! i) = ''Clave''"
    using rename_props(5)[OF i(1), of "col_map_of ?cs"] i(2) m by simp
  then show ?thesis using i(1) label_mem_iff[of "''Clave''" "rename (col_map_of ?cs) df"]
    by (auto simp: rename_props(2))
qed

lemma clean_price_never_raises: "\<exists>r. clean_price v = Inr r"
  by (cases v) (simp_all add: clean_price_value del: clean_price.simps(6))

lemma apply_rows_clean_price: "\<exists>ps. apply_rows clean_price xs = Inr ps"
proof (induction xs)
  case Nil
  then show ?case by simp
next
  case (Cons x xs)
  then show ?case using clean_price_never_raises[of x] by auto
qed

lemma locs_single_index:
  "locs l df = [i] \<Longrightarrow> j < length (cols df) \<Longrightarrow> fst (cols df ! j) = l \<Longrightarrow> j = i"
  using locs_iff[of j l df] by simp

lemma clean_descripcion_single:
  assumes "locs ''Descripcion'' df = [i]"
  shows "clean_descripcion float_str df
         = Inr (map_col (\<lambda>c. fillna (PyStr []) (PyStr (py_str float_str c))) i df)"
  using assms by (simp add: clean_descripcion_def)

lemma apply_rows_replicate:
  "f x = Inr y \<Longrightarrow> apply_rows f (replicate n x) = Inr (replicate n y)"
  by (induction n) auto

lemma round2_zero: "round2 0 = 0"
  by (simp add: round2_def rint_def)

lemma clean_precio_single:
  assumes "locs ''Precio'' df = [i]" "apply_rows clean_price (snd (cols df ! i)) = Inr ps"
  shows "clean_precio df
         = Inr (df\<lparr>cols := (cols df)[i := (''Precio'', map (\<lambda>p. PyFloat (round2 p)) ps)]\<rparr>)"
  using assms by (simp add: clean_precio_def)

lemma rename_lacks:
  assumes "set (candidates_of name) \<inter> set (columns df) = {}"
    and "name \<in> {''Clave'', ''Descripcion'', ''Precio''}"
    and "\<not> (''Descripci'' @ [CHR 0xF3] @ ''n'' \<in> set (columns df) \<and> ''Descripcion'' \<in> set (columns df))"
  shows "name \<notin> set (columns (rename (col_map_of (columns df)) df))"
proof
  let ?cm = "col_map_of (columns df)"
  assume "name \<in> set (columns (rename ?cm df))"
  then obtain i where i: "i < length (cols df)" "fst (cols (rename ?cm df) ! i) = name"
    using label_mem_iff[of name "rename ?cm df"] by (auto simp: rename_props(2))
  have mem: "fst (cols df ! i) \<in> set (columns df)" using i(1) label_mem_iff by blast
  have "find (\<lambda>c. c \<in> set (columns df)) (candidates_of name) = Some (fst (cols df ! i))"
    using i(2) rename_props(5)[OF i(1), of ?cm] renamed_found[OF _ assms(2) mem assms(3)] by simp
  then have "fst (cols df ! i) \<in> set (candidates_of name)" by (rule find_Some_member)
  then show False using mem assms(1) by blast
qed

lemma fill_defaults_Descripcion:
  assumes "''Descripcion'' \<notin> set (columns df)"
  shows "cols (fill_defaults df) ! length (cols df) = (''Descripcion'', replicate (nrows df) (PyStr []))"
  using assms by (simp add: fill_defaults_def Let_def add_column_def nth_append)

lemma fill_defaults_Precio:
  assumes "''Precio'' \<notin> set (columns df)"
  shows "\<exists>i < length (cols (fill_defaults df)).
           cols (fill_defaults df) ! i = (''Precio'', replicate (nrows df) (PyFloat 0))"
proof (cases "''Descripcion'' \<notin> set (columns df)")
  case True
  have "cols (fill_defaults df) ! Suc (length (cols df)) = (''Precio'', replicate (nrows df) (PyFloat 0))"
    using assms True by (simp add: fill_defaults_def Let_def add_column_def add_column_columns[unfolded add_column_def] columns_def nth_append)
  moreover have "Suc (length (cols df)) < length (cols (fill_defaults df))"
    using assms True by (simp add: fill_defaults_def Let_def add_column_def columns_def)
  ultimately show ?thesis by blast
next
  case False
  have "cols (fill_defaults df) ! length (cols df) = (''Precio'', replicate (nrows df) (PyFloat 0))"
    using assms False by (simp add: fill_defaults_def Let_def add_column_def nth_append)
  moreover have "length (cols df) < length (cols (fill_defaults df))"
    using assms False by (simp add: fill_defaults_def Let_def add_column_def)
  ultimately show ?thesis by blast
qed

lemma normalize_explicit:
  assumes dist: "distinct (map py_strip (columns df))"
    and nd: "\<not> (''Descripci'' @ [CHR 0xF3] @ ''n'' \<in> py_strip ` set (columns df)
               \<and> ''Descripcion'' \<in> py_strip ` set (columns df))"
    and key: "set clave_cols \<inter> py_strip ` set (columns df) \<noteq> {}"
    and d3: "d3 = fill_defaults (rename (col_map_of (columns (strip_headers df))) (strip_headers df))"
  shows "\<exists>ik id ip ps.
           locs ''Clave'' d3 = [ik] \<and> locs ''Descripcion'' d3 = [id] \<and> locs ''Precio'' d3 = [ip]
           \<and> apply_rows clean_price (snd (cols d3 ! ip)) = Inr ps
           \<and> snd (normalize_columns float_str df)
               = Inr (\<lparr>nrows = nrows df,
                       cols = [(''Clave'', map (\<lambda>c. PyStr (py_strip (py_str float_str c))) (snd (cols d3 ! ik))),
                               (''Descripcion'', map (\<lambda>c. fillna (PyStr []) (PyStr (py_str float_str c))) (snd (cols d3 ! id))),
                               (''Precio'', map (\<lambda>p. PyFloat (round2 p)) ps)]\<rparr>, True)"
proof -
  let ?f = "\<lambda>c. PyStr (py_strip (py_str float_str c))"
  let ?g = "\<lambda>c. fillna (PyStr []) (PyStr (py_str float_str c))"
  let ?h = "\<lambda>p. PyFloat (round2 p)"
  let ?sd = "strip_headers df"
  let ?cm = "col_map_of (columns ?sd)"
  let ?d1 = "rename ?cm ?sd"
  have cs: "columns ?sd = map py_strip (columns df)" by (rule columns_strip_headers)
  have dist': "distinct (columns ?sd)" using dist cs by simp
  have nd': "\<not> (''Descripci'' @ [CHR 0xF3] @ ''n'' \<in> set (columns ?sd) \<and> ''Descripcion'' \<in> set (columns ?sd))"
    using nd cs by simp
  have key': "set clave_cols \<inter> set (columns ?sd) \<noteq> {}" using key cs by simp
  have in_cm: "''Clave'' \<in> snd ` set ?cm"
    using col_map_Clave[of "columns ?sd"] key' by (simp add: col_map_of_def)
  have u3: "uniq_label ''Clave'' d3" "uniq_label ''Descripcion'' d3" "uniq_label ''Precio'' d3"
    unfolding d3 by (intro fill_defaults_uniq rename_uniq[OF dist' _ nd'], simp)+
  have m3: "''Clave'' \<in> set (columns d3)" "''Descripcion'' \<in> set (columns d3)"
    "''Precio'' \<in> set (columns d3)"
    unfolding d3 using rename_has_Clave[OF key'] fill_defaults_columns[of ?d1] by auto
  obtain ik where ik: "locs ''Clave'' d3 = [ik]" using locs_singleton[OF m3(1) u3(1)] by blast
  obtain id where id: "locs ''Descripcion'' d3 = [id]" using locs_singleton[OF m3(2) u3(2)] by blast
  obtain ip where ip: "locs ''Precio'' d3 = [ip]" using locs_singleton[OF m3(3) u3(3)] by blast
  have bk: "ik < length (cols d3)" "fst (cols d3 ! ik) = ''Clave''"
    using ik locs_iff[of ik "''Clave''" d3] by simp_all
  have bd: "id < length (cols d3)" "fst (cols d3 ! id) = ''Descripcion''"
    using id locs_iff[of id "''Descripcion''" d3] by simp_all
  have bp: "ip < length (cols d3)" "fst (cols d3 ! ip) = ''Precio''"
    using ip locs_iff[of ip "''Precio''" d3] by simp_all
  have ne: "ik \<noteq> id" "ik \<noteq> ip" "id \<noteq> ip" using bk bd bp by auto
  define d4 where "d4 = map_col ?f ik d3"
  have c4: "clean_clave float_str d3 = Inr d4" using ik by (simp add: clean_clave_def d4_def)
  have s34: "same_shape d3 d4" unfolding d4_def by (rule map_col_shape)
  have cols4: "cols d4 = (cols d3)[ik := (''Clave'', map ?f (snd (cols d3 ! ik)))]"
    unfolding d4_def map_col_def using bk by simp
  define d5 where "d5 = map_col ?g id d4"
  have "locs ''Descripcion'' d4 = [id]" using same_shape_locs[OF s34] id by simp
  then have c5: "clean_descripcion float_str d4 = Inr d5"
    unfolding d5_def by (rule clean_descripcion_single)
  have s45: "same_shape d4 d5" unfolding d5_def by (rule map_col_shape)
  have cols5: "cols d5 = (cols d4)[id := (''Descripcion'', map ?g (snd (cols d3 ! id)))]"
    unfolding d5_def map_col_def using bd ne cols4 by simp
  have l5: "locs ''Precio'' d5 = [ip]"
    using same_shape_locs[OF s34] same_shape_locs[OF s45] ip by simp
  have p5: "cols d5 ! ip = cols d3 ! ip" using cols5 cols4 ne by simp
  obtain ps where ps: "apply_rows clean_price (snd (cols d3 ! ip)) = Inr ps"
    using apply_rows_clean_price by blast
  define d6 where "d6 = d5\<lparr>cols := (cols d5)[ip := (''Precio'', map ?h ps)]\<rparr>"
  have c6: "clean_precio d5 = Inr d6"
    unfolding d6_def using clean_precio_single[OF l5] ps p5 by simp
  have s56: "same_shape d5 d6" using clean_precio_shape[OF c6] by simp
  have s36: "same_shape d3 d6" using s34 s45 s56 same_shape_trans by blast
  have col6: "columns d6 = columns d3" using same_shape_columns[OF s36] .
  have l6: "locs ''Clave'' d6 = [ik]" "locs ''Descripcion'' d6 = [id]" "locs ''Precio'' d6 = [ip]"
    using same_shape_locs[OF s36] ik id ip by simp_all
  have cols6: "cols d6 = (cols d3)[ik := (''Clave'', map ?f (snd (cols d3 ! ik))),
                                   id := (''Descripcion'', map ?g (snd (cols d3 ! id))),
                                   ip := (''Precio'', map ?h ps)]"
    unfolding d6_def using cols5 cols4 by simp
  have n6: "nrows d6 = nrows df"
    using s36 unfolding d3
    by (simp add: same_shape_def fill_defaults_props(1) rename_props(1) strip_headers_props(1))
  define out where "out = d6\<lparr>cols := concat (map (\<lambda>l. filter (\<lambda>c. fst c = l) (cols d6))
                                  [''Clave'', ''Descripcion'', ''Precio''])\<rparr>"
  have sel: "select [''Clave'', ''Descripcion'', ''Precio''] d6 = Inr out"
    using m3 col6 by (simp add: select_def out_def)
  have "cols out = [cols d6 ! ik, cols d6 ! id, cols d6 ! ip]"
    unfolding out_def using filter_locs[of _ d6] l6 by simp
  also have "\<dots> = [(''Clave'', map ?f (snd (cols d3 ! ik))),
                    (''Descripcion'', map ?g (snd (cols d3 ! id))),
                    (''Precio'', map ?h ps)]"
    unfolding cols6 using bk bd bp ne by simp
  finally have co: "cols out = [(''Clave'', map ?f (snd (cols d3 ! ik))),
                    (''Descripcion'', map ?g (snd (cols d3 ! id))),
                    (''Precio'', map ?h ps)]" .
  have no: "nrows out = nrows df" using n6 by (simp add: out_def)
  have oe: "out = \<lparr>nrows = nrows df, cols = [(''Clave'', map ?f (snd (cols d3 ! ik))),
                    (''Descripcion'', map ?g (snd (cols d3 ! id))),
                    (''Precio'', map ?h ps)]\<rparr>"
    using co no by (cases out) simp
  have "clean_types float_str d3 = Inr (out, True)"
    by (simp add: clean_types_def c4 c5 c6 sel)
  then have "snd (normalize_columns float_str df) = Inr (out, True)"
    using in_cm unfolding d3 by (simp add: normalize_columns_stages)
  then show ?thesis using ik id ip ps oe by blast
qed

lemma fill_defaults_Descripcion_ex:
  assumes "''Descripcion'' \<notin> set (columns df)"
  shows "\<exists>i < length (cols (fill_defaults df)).
           cols (fill_defaults df) ! i = (''Descripcion'', replicate (nrows df) (PyStr []))"
proof -
  have "length (cols df) < length (cols (fill_defaults df))"
    using assms by (simp add: fill_defaults_def Let_def add_column_def)
  then show ?thesis using fill_defaults_Descripcion[OF assms] by blast
qed

lemma normalize_defaults:
  assumes dist: "distinct (map py_strip (columns df))"
    and nd: "\<not> (''Descripci'' @ [CHR 0xF3] @ ''n'' \<in> py_strip ` set (columns df)
               \<and> ''Descripcion'' \<in> py_strip ` set (columns df))"
    and key: "set clave_cols \<inter> py_strip ` set (columns df) \<noteq> {}"
  shows "\<exists>out. snd (normalize_columns float_str df) = Inr (out, True)
           \<and> nrows out = nrows df
           \<and> columns out = [''Clave'', ''Descripcion'', ''Precio'']
           \<and> (set desc_cols \<inter> py_strip ` set (columns df) = {} \<longrightarrow>
                cols out ! 1 = (''Descripcion'', replicate (nrows df) (PyStr [])))
           \<and> (set price_cols \<inter> py_strip ` set (columns df) = {} \<longrightarrow>
                cols out ! 2 = (''Precio'', replicate (nrows df) (PyFloat 0)))"
proof -
  let ?sd = "strip_headers df"
  let ?d1 = "rename (col_map_of (columns ?sd)) ?sd"
  define d3 where "d3 = fill_defaults ?d1"
  have cs: "columns ?sd = map py_strip (columns df)" by (rule columns_strip_headers)
  have nd': "\<not> (''Descripci'' @ [CHR 0xF3] @ ''n'' \<in> set (columns ?sd) \<and> ''Descripcion'' \<in> set (columns ?sd))"
    using nd cs by simp
  have n1: "nrows ?d1 = nrows df" by (simp add: rename_props(1) strip_headers_props(1))
  from normalize_explicit[OF dist nd key d3_def, of float_str] obtain ik id ip ps where
    id: "locs ''Descripcion'' d3 = [id]" and ip: "locs ''Precio'' d3 = [ip]"
    and ps: "apply_rows clean_price (snd (cols d3 ! ip)) = Inr ps"
    and r: "snd (normalize_columns float_str df)
               = Inr (\<lparr>nrows = nrows df,
                       cols = [(''Clave'', map (\<lambda>c. PyStr (py_strip (py_str float_str c))) (snd (cols d3 ! ik))),
                               (''Descripcion'', map (\<lambda>c. fillna (PyStr []) (PyStr (py_str float_str c))) (snd (cols d3 ! id))),
                               (''Precio'', map (\<lambda>p. PyFloat (round2 p)) ps)]\<rparr>, True)"
    by blast
  have dd: "map (\<lambda>c. fillna (PyStr []) (PyStr (py_str float_str c))) (snd (cols d3 ! id))
            = replicate (nrows df) (PyStr [])"
    if "set desc_cols \<inter> py_strip ` set (columns df) = {}"
  proof -
    have "''Descripcion'' \<notin> set (columns ?d1)"
      using rename_lacks[of "''Descripcion''" ?sd, OF _ _ nd'] that cs
      by (simp add: candidates_of_simps)
    from fill_defaults_Descripcion_ex[OF this] obtain i where
      i: "i < length (cols d3)" "cols d3 ! i = (''Descripcion'', replicate (nrows df) (PyStr []))"
      unfolding d3_def n1 by blast
    then have "i = id" using locs_single_index[OF id, of i] by simp
    then show ?thesis using i(2) by (simp add: fillna_def isna_def)
  qed
  have pp: "map (\<lambda>p. PyFloat (round2 p)) ps = replicate (nrows df) (PyFloat 0)"
    if "set price_cols \<inter> py_strip ` set (columns df) = {}"
  proof -
    have "''Precio'' \<notin> set (columns ?d1)"
      using rename_lacks[of "''Precio''" ?sd, OF _ _ nd'] that cs
      by (simp add: candidates_of_simps)
    from fill_defaults_Precio[OF this] obtain i where
      i: "i < length (cols d3)" "cols d3 ! i = (''Precio'', replicate (nrows df) (PyFloat 0))"
      unfolding d3_def n1 by blast
    then have "i = ip" using locs_single_index[OF ip, of i] by simp
    then have "apply_rows clean_price (replicate (nrows df) (PyFloat 0)) = Inr ps"
      using ps i(2) by simp
    moreover have "apply_rows clean_price (replicate (nrows df) (PyFloat 0)) = Inr (replicate (nrows df) 0)"
      by (rule apply_rows_replicate) simp
    ultimately have "ps = replicate (nrows df) 0" by simp
    then show ?thesis by (simp add: round2_zero)
  qed
  show ?thesis
    unfolding r using dd pp by (simp add: columns_def)
qed

section \<open>The claims\<close>

lemma merge_duplicate:
  "merge_outer duplicate_a duplicate_b =
     [Both (hd duplicate_a) (hd duplicate_b), Both (hd duplicate_a) (hd (tl duplicate_b))]"
  by (simp add: merge_outer_def merge_group_def duplicate_a_def duplicate_b_def)

text \<open>
  Claim C1, as stated, fails when a key occurs more than once: the outer join pairs every
  row of one table with every row of the other that has the same key. One row with key \<open>X\<close>
  against two rows with key \<open>X\<close> gives two pairs, so \<open>total_a = 1\<close> while
  \<open>|matches| + |only_a| = 2\<close>.
\<close>

theorem totals_counterexample:
  "\<not> isl (analysis duplicate_a duplicate_b)
   \<and> total_a (projr (analysis duplicate_a duplicate_b)) = 1
   \<and> length (common_df (projr (analysis duplicate_a duplicate_b))) = 2
   \<and> length (only_a_df (projr (analysis duplicate_a duplicate_b))) = 0"
  by (simp add: analysis_value merge_duplicate) (simp add: duplicate_a_def)

text \<open>
  Claim C1, amended. The totals are the row counts of the two tables. \<open>total_a\<close> is
  \<open>|matches| + |only_a|\<close> when no key occurs twice in the second table, and \<open>total_b\<close> is
  \<open>|matches| + |only_b|\<close> when no key occurs twice in the first.
\<close>

theorem totals_amended:
  "\<exists>res. analysis df_a df_b = Inr res
     \<and> total_a res = length df_a \<and> total_b res = length df_b
     \<and> (distinct (map Clave df_b) \<longrightarrow>
          total_a res = length (common_df res) + length (only_a_df res))
     \<and> (distinct (map Clave df_a) \<longrightarrow>
          total_b res = length (common_df res) + length (only_b_df res))"
  using count_left[of df_b df_a] count_right[of df_a df_b]
  by (simp add: analysis_value)

text \<open>
  The amended claim C1 on the two tables of the specification's scenario, whose keys are
  distinct.
\<close>

theorem totals_amended_witness:
  "distinct (map Clave scenario_b) \<and> distinct (map Clave scenario_a)
   \<and> (\<exists>res. analysis scenario_a scenario_b = Inr res
         \<and> total_a res = 2 \<and> length (common_df res) + length (only_a_df res) = 2
         \<and> total_b res = 2 \<and> length (common_df res) + length (only_b_df res) = 2)"
proof -
  have d: "distinct (map Clave scenario_b)" "distinct (map Clave scenario_a)"
    by (simp_all add: scenario_a_def scenario_b_def)
  have l: "length scenario_a = 2" "length scenario_b = 2"
    by (simp_all add: scenario_a_def scenario_b_def)
  from totals_amended[of scenario_a scenario_b] d l show ?thesis by auto
qed

text \<open>
  Claim C2. The keys of the matches are the keys present in both tables, the keys of
  \<open>only_a\<close> those present in the first table only, the keys of \<open>only_b\<close> those present in the
  second only; the three sets are pairwise disjoint and their union is the union of the keys
  of the two tables. Keys are compared as strings.
\<close>

theorem key_partition:
  "\<exists>res. analysis df_a df_b = Inr res
     \<and> Clave_AB ` set (common_df res) = Clave ` set df_a \<inter> Clave ` set df_b
     \<and> Clave ` set (only_a_df res) = Clave ` set df_a - Clave ` set df_b
     \<and> Clave ` set (only_b_df res) = Clave ` set df_b - Clave ` set df_a
     \<and> Clave_AB ` set (common_df res) \<inter> Clave ` set (only_a_df res) = {}
     \<and> Clave_AB ` set (common_df res) \<inter> Clave ` set (only_b_df res) = {}
     \<and> Clave ` set (only_a_df res) \<inter> Clave ` set (only_b_df res) = {}
     \<and> Clave_AB ` set (common_df res) \<union> Clave ` set (only_a_df res) \<union> Clave ` set (only_b_df res)
         = Clave ` set df_a \<union> Clave ` set df_b"
proof -
  let ?m = "merge_outer df_a df_b"
  have c: "Clave_AB ` set (map match_of (both_rows ?m)) = Clave ` set df_a \<inter> Clave ` set df_b"
    by (auto simp: set_both match_of_def image_iff) (metis, force)
  have a: "Clave ` set (left_only_rows ?m) = Clave ` set df_a - Clave ` set df_b"
    by (auto simp: set_left_only)
  have b: "Clave ` set (right_only_rows ?m) = Clave ` set df_b - Clave ` set df_a"
    by (auto simp: set_right_only)
  show ?thesis
    unfolding analysis_value
    apply (rule exI, rule conjI, rule refl)
    apply (simp only: results.simps c a b)
    apply blast
    done
qed






text \<open>
  Claim C5. A non-empty string has similarity 100 with itself; the similarity of the empty
  string with any string, in either position, is 0; every similarity lies between 0 and 100.
\<close>

theorem similarity_self_empty_range:
  "(s \<noteq> [] \<longrightarrow> calculate_text_similarity s s = 100)
   \<and> calculate_text_similarity [] x = 0
   \<and> calculate_text_similarity x [] = 0
   \<and> 0 \<le> calculate_text_similarity a b
   \<and> calculate_text_similarity a b \<le> 100"
  using ratio_bounds[of "lower a" "lower b"]
  by (simp add: calculate_text_similarity_def ratio_same)

text \<open>
  Claim C5 on the non-empty string \<open>Filter\<close>.
\<close>

theorem similarity_self_empty_range_witness:
  "''Filter'' \<noteq> [] \<and> calculate_text_similarity ''Filter'' ''Filter'' = 100"
  using similarity_self_empty_range[of "''Filter''" "[]" "[]" "[]"] by simp

lemma matches_tide_diet: "matches ''tide'' ''diet'' = 1"
  by code_simp

lemma matches_diet_tide: "matches ''diet'' ''tide'' = 2"
  by code_simp

text \<open>
  Claim C6, as stated, fails: \<open>SequenceMatcher\<close> looks for the blocks of its first argument
  in its second, and the two orders can find different blocks. \<open>tide\<close> against \<open>diet\<close> scores
  25, \<open>diet\<close> against \<open>tide\<close> scores 50.
\<close>

theorem similarity_symmetric_counterexample:
  "calculate_text_similarity ''tide'' ''diet'' = 25
   \<and> calculate_text_similarity ''diet'' ''tide'' = 50
   \<and> calculate_text_similarity ''tide'' ''diet'' \<noteq> calculate_text_similarity ''diet'' ''tide''"
  by (simp add: calculate_text_similarity_def lower_def lower_char_def ratio_def
      calculate_ratio_def matches_tide_diet matches_diet_tide)

text \<open>
  Claim C6, amended. The two orders agree when one of the strings is empty, and when the two
  strings have the same lower-cased form.
\<close>

theorem similarity_symmetric_amended:
  "s1 = [] \<or> s2 = [] \<or> lower s1 = lower s2 \<Longrightarrow>
   calculate_text_similarity s1 s2 = calculate_text_similarity s2 s1"
  by (auto simp: calculate_text_similarity_def)

text \<open>
  The amended claim C6 on \<open>Oil\<close> and \<open>OIL\<close>.
\<close>

theorem similarity_symmetric_amended_witness:
  "lower ''Oil'' = lower ''OIL''
   \<and> calculate_text_similarity ''Oil'' ''OIL'' = calculate_text_similarity ''OIL'' ''Oil''"
proof -
  have h: "lower ''Oil'' = lower ''OIL''" by code_simp
  then have "''Oil'' = [] \<or> ''OIL'' = [] \<or> lower ''Oil'' = lower ''OIL''" by blast
  from similarity_symmetric_amended[OF this] h show ?thesis by blast
qed

text \<open>
  Claim C7 fails on a sheet that has both the accented and the unaccented description
  header: \<open>rename\<close> gives the accented column the label \<open>Descripcion\<close>, which the other column
  already carries, and the final selection returns both. Normalisation succeeds with four
  columns.
\<close>

theorem normalize_both_spellings:
  "snd (normalize_columns float_str both_spellings)
     = Inr (\<lparr>nrows = 1,
             cols = [(''Clave'', [PyStr ''A1'']), (''Descripcion'', [PyStr ''Filtro'']),
                     (''Descripcion'', [PyStr ''Filter'']), (''Precio'', [PyFloat 0])]\<rparr>, True)"
  by code_simp

text \<open>
  Claim C8. Comparing the two tables in the other order exchanges \<open>only_a\<close> and \<open>only_b\<close>:
  the sequences are equal, record by record and in the same order.
\<close>

theorem swap_symmetry:
  "\<exists>r1 r2. analysis df_a df_b = Inr r1 \<and> analysis df_b df_a = Inr r2
     \<and> only_a_df r2 = only_b_df r1 \<and> only_b_df r2 = only_a_df r1"
  by (simp add: analysis_value left_only_rows_merge right_only_rows_merge
      join_keys_commute[of df_b df_a])

text \<open>
  Claim C9. After the call, the caller's frame has every header stripped, and its cells are
  unchanged; when the call returns \<open>ok = False\<close>, the frame it returns is that frame.
\<close>

theorem normalize_mutates_argument:
  "fst (normalize_columns float_str df) = df\<lparr>cols := map (\<lambda>(l, d). (py_strip l, d)) (cols df)\<rparr>
   \<and> columns (fst (normalize_columns float_str df)) = map py_strip (columns df)
   \<and> map snd (cols (fst (normalize_columns float_str df))) = map snd (cols df)
   \<and> (snd (normalize_columns float_str df) = Inr (out, False) \<longrightarrow>
        out = fst (normalize_columns float_str df))"
  using normalize_False[of float_str df out] columns_strip_headers[of df]
  by (simp add: normalize_caller) (simp add: strip_headers_def comp_def case_prod_unfold)

lemma normalize_no_key:
  "snd (normalize_columns (\<lambda>x. []) no_key)
     = Inr (\<lparr>nrows = 1, cols = [(''Part'', [PyStr ''A1'']), (''Precio'', [PyStr ''$5''])]\<rparr>, False)"
  by code_simp

text \<open>
  Claim C9 on a sheet without a key column and with a header that starts with a space.
\<close>

theorem normalize_mutates_argument_witness:
  "snd (normalize_columns (\<lambda>x. []) no_key)
     = Inr (\<lparr>nrows = 1, cols = [(''Part'', [PyStr ''A1'']), (''Precio'', [PyStr ''$5''])]\<rparr>, False)
   \<and> fst (normalize_columns (\<lambda>x. []) no_key)
     = \<lparr>nrows = 1, cols = [(''Part'', [PyStr ''A1'']), (''Precio'', [PyStr ''$5''])]\<rparr>
   \<and> columns (fst (normalize_columns (\<lambda>x. []) no_key)) \<noteq> columns no_key"
proof -
  let ?out = "\<lparr>nrows = 1, cols = [(''Part'', [PyStr ''A1'']), (''Precio'', [PyStr ''$5''])]\<rparr>"
  have r: "snd (normalize_columns (\<lambda>x. []) no_key) = Inr (?out, False)"
    by (rule normalize_no_key)
  from normalize_mutates_argument[of "\<lambda>x. []" no_key ?out] r
  have f: "fst (normalize_columns (\<lambda>x. []) no_key) = ?out" by simp
  have "columns ?out \<noteq> columns no_key" by (simp add: columns_def no_key_def)
  then show ?thesis using r f by simp
qed

text \<open>
  Claim C10. When normalisation succeeds on a frame whose columns all have \<open>nrows\<close> cells,
  the result has the same number of rows, each of its columns has that many cells, and its
  key column is the key column of the input converted cell by cell, in the same order.
\<close>

theorem normalize_preserves_rows:
  assumes wf: "\<forall>c \<in> set (cols df). length (snd c) = nrows df"
    and ok: "snd (normalize_columns float_str df) = Inr (out, True)"
  shows "nrows out = nrows df
       \<and> (\<forall>c \<in> set (cols out). length (snd c) = nrows df)
       \<and> (\<exists>c d. (c, d) \<in> set (cols df) \<and> py_strip c \<in> set clave_cols
              \<and> hd (cols out) = (''Clave'', map (\<lambda>x. PyStr (py_strip (py_str float_str x))) d))"
proof -
  let ?f = "\<lambda>x. PyStr (py_strip (py_str float_str x))"
  let ?sd = "strip_headers df"
  let ?cm = "col_map_of (columns ?sd)"
  let ?d1 = "rename ?cm ?sd"
  let ?d3 = "fill_defaults ?d1"
  from clean_types_result[OF normalize_True[OF ok]] obtain d4 d5 d6 where
    c4: "clean_clave float_str ?d3 = Inr d4" and c5: "clean_descripcion float_str d4 = Inr d5"
    and c6: "clean_precio d5 = Inr d6"
    and sel: "select [''Clave'', ''Descripcion'', ''Precio''] d6 = Inr out" by blast
  from clean_clave_result[OF c4] obtain i where
    l3: "locs ''Clave'' ?d3 = [i]" and d4: "d4 = map_col ?f i ?d3" by blast
  have "i \<in> set (locs ''Clave'' ?d1)" using l3 by (simp add: fill_defaults_props(3))
  then have i1: "i < length (cols ?d1)" "fst (cols ?d1 ! i) = ''Clave''"
    using locs_iff[of i "''Clave''" ?d1] by auto
  have i0: "i < length (cols df)" using i1(1) by (simp add: rename_props(2) strip_headers_props(2))
  have isd: "i < length (cols ?sd)" using i0 by (simp add: strip_headers_props(2))
  obtain c d where cd: "cols df ! i = (c, d)" by (cases "cols df ! i")
  have sd: "cols ?sd ! i = (py_strip c, d)" using strip_headers_props(4)[OF i0] cd by simp
  have fsd: "fst (cols ?sd ! i) = py_strip c" using sd by simp
  have "(case map_of ?cm (py_strip c) of None \<Rightarrow> py_strip c | Some l' \<Rightarrow> l') = ''Clave''"
    using i1(2) rename_props(5)[OF isd, of ?cm] unfolding fsd by simp
  then have key: "py_strip c \<in> set clave_cols" by (rule renamed_Clave)
  have "snd (cols ?d1 ! i) = d" using rename_props(4)[OF isd, of ?cm] sd by simp
  then have c1: "cols ?d1 ! i = (''Clave'', d)" using i1(2) by (metis prod.collapse)
  have c3: "cols ?d3 ! i = (''Clave'', d)" using fill_defaults_props(4)[OF i1(1)] c1 by simp
  have i3: "i < length (cols ?d3)" using l3 locs_iff[of i "''Clave''" ?d3] by simp
  have c4i: "cols d4 ! i = (''Clave'', map ?f d)"
    unfolding d4 map_col_def using c3 i3 by simp
  have s34: "same_shape ?d3 d4" unfolding d4 by (rule map_col_shape)
  have s45: "same_shape d4 d5" "kept ''Clave'' d4 d5" using clean_descripcion_shape[OF c5] by auto
  have s56: "same_shape d5 d6" "kept ''Clave'' d5 d6" using clean_precio_shape[OF c6] by auto
  have i4: "i < length (cols d4)" using i3 same_shape_length[OF s34] by simp
  have c5i: "cols d5 ! i = (''Clave'', map ?f d)" using s45(2) i4 c4i unfolding kept_def by simp
  have i5: "i < length (cols d5)" using i4 same_shape_length[OF s45(1)] by simp
  have c6i: "cols d6 ! i = (''Clave'', map ?f d)" using s56(2) i5 c5i unfolding kept_def by simp
  have l6: "locs ''Clave'' d6 = [i]"
    using l3 same_shape_locs[OF s34] same_shape_locs[OF s45(1)] same_shape_locs[OF s56(1)] by simp
  have co: "cols out = concat (map (\<lambda>l. filter (\<lambda>c. fst c = l) (cols d6)) [''Clave'', ''Descripcion'', ''Precio''])"
    and no: "nrows out = nrows d6" using select_result[OF sel] by auto
  have hd: "hd (cols out) = (''Clave'', map ?f d)"
    unfolding co using filter_locs[of "''Clave''" d6] l6 c6i by simp
  have n6: "nrows d6 = nrows df"
    using s34 s45(1) s56(1)
    by (simp add: same_shape_def fill_defaults_props(1) rename_props(1) strip_headers_props(1))
  have "wf_frame df" using wf by (simp add: wf_frame_def)
  then have "wf_frame ?d3"
    by (intro fill_defaults_props(2) rename_props(3) strip_headers_props(3))
  then have "wf_frame d6"
    using same_shape_wf[OF s34] same_shape_wf[OF s45(1)] same_shape_wf[OF s56(1)] by blast
  then have w: "\<forall>c \<in> set (cols out). length (snd c) = nrows df"
    unfolding co wf_frame_def n6 by auto
  have "(c, d) \<in> set (cols df)" using cd i0 by (metis nth_mem)
  then have "\<exists>c d. (c, d) \<in> set (cols df) \<and> py_strip c \<in> set clave_cols
              \<and> hd (cols out) = (''Clave'', map ?f d)"
    using key hd by (intro exI[of _ c] exI[of _ d]) simp
  then show ?thesis using no n6 w by simp
qed

lemma normalize_duplicate_keys:
  "snd (normalize_columns (\<lambda>x. []) duplicate_keys)
     = Inr (\<lparr>nrows = 3,
             cols = [(''Clave'', [PyStr ''A'', PyStr ''A'', PyStr []]),
                     (''Descripcion'', [PyStr [], PyStr [], PyStr []]),
                     (''Precio'', [PyFloat 1, PyFloat 2, PyFloat 3])]\<rparr>, True)"
  by code_simp

text \<open>
  Claim C10 on a sheet where a key occurs twice and another key is blank: the three rows are
  kept.
\<close>

theorem normalize_preserves_rows_witness:
  "map (length \<circ> snd) (cols duplicate_keys) = [3, 3] \<and> nrows duplicate_keys = 3
   \<and> snd (normalize_columns (\<lambda>x. []) duplicate_keys)
       = Inr (\<lparr>nrows = 3,
               cols = [(''Clave'', [PyStr ''A'', PyStr ''A'', PyStr []]),
                       (''Descripcion'', [PyStr [], PyStr [], PyStr []]),
                       (''Precio'', [PyFloat 1, PyFloat 2, PyFloat 3])]\<rparr>, True)
   \<and> (\<exists>c d. (c, d) \<in> set (cols duplicate_keys) \<and> py_strip c \<in> set clave_cols
          \<and> [PyStr ''A'', PyStr ''A'', PyStr []] = map (\<lambda>x. PyStr (py_strip (py_str (\<lambda>x. []) x))) d)"
proof -
  have w: "\<forall>c \<in> set (cols duplicate_keys). length (snd c) = nrows duplicate_keys"
    by (simp add: duplicate_keys_def)
  have l: "map (length \<circ> snd) (cols duplicate_keys) = [3, 3]" "nrows duplicate_keys = 3"
    by (simp_all add: duplicate_keys_def)
  from normalize_preserves_rows[OF w normalize_duplicate_keys] l normalize_duplicate_keys
  show ?thesis by simp
qed

end
